theory Spec2Isabelle
  imports Main
begin

section \<open>Strings\<close>

text \<open>
  A Python \<open>str\<close> is modelled as a \<^typ>\<open>string\<close>; a \<^typ>\<open>char\<close> stands for a code point
  below 256. The input lines are the elements of the list that \<open>readlines\<close> returns.
\<close>

text \<open>\<open>str.isspace\<close> and the regex class \<open>\s\<close> on code points below 256.\<close>

definition is_space :: "char \<Rightarrow> bool" where
  "is_space c = (of_char c \<in> {9, 10, 11, 12, 13, 28, 29, 30, 31, 32, 133, 160 :: nat})"

text \<open>The regex class \<open>\d\<close> on code points below 256.\<close>

definition is_digit :: "char \<Rightarrow> bool" where
  "is_digit c = (48 \<le> (of_char c :: nat) \<and> (of_char c :: nat) \<le> 57)"

text \<open>The regex class \<open>[IVX]\<close>.\<close>

definition is_roman :: "char \<Rightarrow> bool" where
  "is_roman c = (c = CHR ''I'' \<or> c = CHR ''V'' \<or> c = CHR ''X'')"

text \<open>The regex class \<open>[^\]]\<close>.\<close>

definition not_rbracket :: "char \<Rightarrow> bool" where
  "not_rbracket c = (c \<noteq> CHR '']'')"

text \<open>\<open>s.strip()\<close>: leading and trailing whitespace removed.\<close>

definition strip :: "string \<Rightarrow> string" where
  "strip s = rev (dropWhile is_space (rev (dropWhile is_space s)))"

text \<open>\<open>s.startswith(p)\<close>.\<close>

definition startswith :: "string \<Rightarrow> string \<Rightarrow> bool" where
  "startswith s p = (take (length p) s = p)"

text \<open>\<open>k in s\<close> on strings: \<open>k\<close> occurs as a substring of \<open>s\<close>.\<close>

fun contains :: "string \<Rightarrow> string \<Rightarrow> bool" where
  "contains [] k = (k = [])"
| "contains (c # cs) k = (startswith (c # cs) k \<or> contains cs k)"

text \<open>\<open>' '.join(parts)\<close>.\<close>

fun join :: "string list \<Rightarrow> string" where
  "join [] = []"
| "join [x] = x"
| "join (x # y # ys) = x @ '' '' @ join (y # ys)"

text \<open>\<open>s.lower()\<close> on code points below 256: the letters A to Z and the accented capitals
  192 to 222 (the multiplication sign 215 apart) move up by 32.\<close>

definition lower_char :: "char \<Rightarrow> char" where
  "lower_char c =
     (let n = (of_char c :: nat)
      in if (65 \<le> n \<and> n \<le> 90) \<or> (192 \<le> n \<and> n \<le> 222 \<and> n \<noteq> 215)
         then char_of (n + 32) else c)"

definition lower :: "string \<Rightarrow> string" where
  "lower s = map lower_char s"

text \<open>\<open>str(n)\<close> for a non-negative integer: its decimal digits.\<close>

function str :: "nat \<Rightarrow> string" where
  "str n = (if n < 10 then [char_of (48 + n)] else str (n div 10) @ [char_of (48 + n mod 10)])"
  by pat_completeness auto
termination
  by (relation "measure id") auto

declare str.simps [simp del]

text \<open>\<open>int(s)\<close> on a string of decimal digits.\<close>

definition int_of_str :: "string \<Rightarrow> nat" where
  "int_of_str s = foldl (\<lambda>acc c. 10 * acc + (of_char c - 48)) 0 s"

section \<open>Regular expressions\<close>

text \<open>
  A pattern is modelled by a matcher: applied to the text at the current position, it
  returns \<open>None\<close> when the pattern does not match there, and otherwise the replacement
  text together with the text after the match. Every repetition in the patterns of this
  program (\<open>\d+\<close>, \<open>[^\]]+\<close>, \<open>[IVX]+\<close>, \<open>\s+\<close>) is followed by a literal character outside
  its class, or by nothing, so the greedy match is the longest run and backtracking never
  finds another one.
\<close>

type_synonym matcher = "string \<Rightarrow> (string \<times> string) option"

text \<open>A literal: the text after it when the text starts with it.\<close>

definition lit :: "string \<Rightarrow> string \<Rightarrow> string option" where
  "lit p s = (if startswith s p then Some (drop (length p) s) else None)"

text \<open>A class repeated once or more: the longest run and the text after it.\<close>

definition run1 :: "(char \<Rightarrow> bool) \<Rightarrow> string \<Rightarrow> (string \<times> string) option" where
  "run1 P s = (if takeWhile P s = [] then None else Some (takeWhile P s, dropWhile P s))"

text \<open>
  \<open>re.sub(pattern, repl, text)\<close>: scan from the left; where the pattern matches, emit the
  replacement and resume after the match, otherwise copy one character. No pattern of
  this program matches the empty string, so a match always moves forward.
\<close>

function re_sub :: "matcher \<Rightarrow> string \<Rightarrow> string" where
  "re_sub m [] = []"
| "re_sub m (c # cs) =
     (case m (c # cs) of
        None \<Rightarrow> c # re_sub m cs
      | Some (rep, rest) \<Rightarrow>
          if length rest \<le> length cs then rep @ re_sub m rest else c # re_sub m cs)"
  by pat_completeness auto
termination
  by (relation "measure (\<lambda>(m, s). length s)") auto

text \<open>\<open>\[\d+\.\d+\]\<close>, replaced by nothing.\<close>

definition m_refcode :: matcher where
  "m_refcode s =
     (case lit ''['' s of None \<Rightarrow> None | Some r0 \<Rightarrow>
      (case run1 is_digit r0 of None \<Rightarrow> None | Some (d1, r1) \<Rightarrow>
      (case lit ''.'' r1 of None \<Rightarrow> None | Some r2 \<Rightarrow>
      (case run1 is_digit r2 of None \<Rightarrow> None | Some (d2, r3) \<Rightarrow>
      (case lit '']'' r3 of None \<Rightarrow> None | Some r4 \<Rightarrow> Some ([], r4))))))"

text \<open>\<open>\[TAG ([^\]]+)\]\<close>: the captured group and the text after the closing bracket.\<close>

definition tag_group :: "string \<Rightarrow> string \<Rightarrow> (string \<times> string) option" where
  "tag_group tag s =
     (case lit (''['' @ tag @ '' '') s of None \<Rightarrow> None | Some r0 \<Rightarrow>
      (case run1 not_rbracket r0 of None \<Rightarrow> None | Some (x, r1) \<Rightarrow>
      (case lit '']'' r1 of None \<Rightarrow> None | Some r2 \<Rightarrow> Some (x, r2))))"

text \<open>\<open>\[PCUS ([^\]]+)\] \[UPCUSA ([^\]]+)\]\<close>, replaced by the UPCUSA group.\<close>

definition m_pcus_upcusa :: matcher where
  "m_pcus_upcusa s =
     (case tag_group ''PCUS'' s of None \<Rightarrow> None | Some (x, r0) \<Rightarrow>
      (case lit '' '' r0 of None \<Rightarrow> None | Some r1 \<Rightarrow>
      (case tag_group ''UPCUSA'' r1 of None \<Rightarrow> None | Some (y, r2) \<Rightarrow> Some (y, r2))))"

text \<open>\<open>\[UPCUSA ([^\]]+)\] \[PCUS ([^\]]+)\]\<close>, replaced by the UPCUSA group.\<close>

definition m_upcusa_pcus :: matcher where
  "m_upcusa_pcus s =
     (case tag_group ''UPCUSA'' s of None \<Rightarrow> None | Some (y, r0) \<Rightarrow>
      (case lit '' '' r0 of None \<Rightarrow> None | Some r1 \<Rightarrow>
      (case tag_group ''PCUS'' r1 of None \<Rightarrow> None | Some (x, r2) \<Rightarrow> Some (y, r2))))"

text \<open>\<open>\[PCUS ([^\]]+)\]\<close> and \<open>\[UPCUSA ([^\]]+)\]\<close>, replaced by their group.\<close>

definition m_pcus :: matcher where
  "m_pcus s = tag_group ''PCUS'' s"

definition m_upcusa :: matcher where
  "m_upcusa s = tag_group ''UPCUSA'' s"

text \<open>\<open>\s+\<close>, replaced by one space.\<close>

definition m_spaces :: matcher where
  "m_spaces s = (case run1 is_space s of None \<Rightarrow> None | Some (w, r) \<Rightarrow> Some ('' '', r))"

section \<open>The helpers of \<open>parse_westminster\<close>\<close>

text \<open>\<open>clean_title\<close>: the four substitutions in the order of the source, then \<open>strip\<close>.\<close>

definition clean_title :: "string \<Rightarrow> string" where
  "clean_title title =
     (let title = re_sub m_pcus_upcusa title;
          title = re_sub m_upcusa_pcus title;
          title = re_sub m_pcus title;
          title = re_sub m_upcusa title
      in strip title)"

text \<open>
  \<open>clean_content\<close>. The title is \<open>None\<close> or a string; \<open>if title\<close> holds for a non-empty
  string only. The patterns of the content substitutions capture one group where those
  of the title capture two; they match the same texts and insert the same group.
\<close>

definition clean_content :: "string list \<Rightarrow> string option \<Rightarrow> string" where
  "clean_content content_lines title =
     (let text = join content_lines;
          text = re_sub m_refcode text;
          text = re_sub m_pcus_upcusa text;
          text = re_sub m_upcusa_pcus text;
          text = re_sub m_pcus text;
          text = re_sub m_upcusa text;
          text = (case title of
                    None \<Rightarrow> text
                  | Some t \<Rightarrow>
                      if t = [] then text
                      else (let clean_title_text = clean_title t
                            in if startswith text clean_title_text
                               then strip (drop (length clean_title_text) text)
                               else text));
          text = re_sub m_spaces text
      in strip text)"

text \<open>The table \<open>chapter_keywords\<close>, in the order in which the dictionary is written (the
  order in which \<open>items()\<close> yields it).\<close>

definition chapter_keywords :: "(string \<times> string list) list" where
  "chapter_keywords =
    [(''holy scripture'', [''scripture'', ''revelation'', ''authority'', ''word of god'']),
     (''god'', [''god'', ''trinity'', ''attributes'']),
     (''eternal decree'', [''predestination'', ''election'', ''sovereignty'', ''decrees'']),
     (''creation'', [''creation'', ''providence'']),
     (''providence'', [''providence'', ''sovereignty'']),
     (''fall'', [''sin'', ''fall'', ''adam'', ''original sin'']),
     (''covenant'', [''covenant'', ''grace'', ''works'']),
     (''christ'', [''christ'', ''mediator'', ''jesus'', ''incarnation'', ''atonement'']),
     (''free will'', [''free will'', ''depravity'']),
     (''calling'', [''calling'', ''regeneration'', ''holy spirit'']),
     (''justification'', [''justification'', ''faith'', ''salvation'']),
     (''adoption'', [''adoption'', ''sonship'']),
     (''sanctification'', [''sanctification'', ''holiness'']),
     (''faith'', [''faith'', ''belief'']),
     (''repentance'', [''repentance'']),
     (''good works'', [''good works'', ''obedience'']),
     (''perseverance'', [''perseverance'', ''assurance'']),
     (''assurance'', [''assurance'', ''salvation'']),
     (''law'', [''law'', ''ten commandments'', ''moral law'']),
     (''liberty'', [''liberty'', ''conscience'', ''freedom'']),
     (''worship'', [''worship'', ''sabbath'']),
     (''oath'', [''oaths'', ''vows'']),
     (''magistrate'', [''civil government'', ''authority'']),
     (''marriage'', [''marriage'', ''divorce'']),
     (''church'', [''church'', ''ecclesiology'']),
     (''communion'', [''communion of saints'', ''fellowship'']),
     (''sacrament'', [''sacraments'', ''ordinances'']),
     (''baptism'', [''baptism'']),
     (''lord's supper'', [''lord's supper'', ''eucharist'', ''communion'']),
     (''censure'', [''church discipline'', ''excommunication'']),
     (''synod'', [''synods'', ''councils'', ''church government'']),
     (''death'', [''death'', ''resurrection'', ''intermediate state'']),
     (''judgment'', [''last judgment'', ''final judgment'', ''eschatology''])]"

text \<open>The loop of \<open>get_topics\<close> over the table, extending the list \<open>topics\<close>.\<close>

fun topics_loop :: "string \<Rightarrow> (string \<times> string list) list \<Rightarrow> string list \<Rightarrow> string list" where
  "topics_loop title_lower [] topics = topics"
| "topics_loop title_lower ((keyword, topic_list) # kws) topics =
     (if contains title_lower keyword
      then topics_loop title_lower kws (topics @ topic_list)
      else topics_loop title_lower kws topics)"

definition get_topics :: "string \<Rightarrow> string list" where
  "get_topics title =
     (let title_lower = lower title;
          topics = topics_loop title_lower chapter_keywords []
      in if topics \<noteq> [] then topics else [''theology''])"

section \<open>The line classes\<close>

text \<open>\<open>re.match(r'^CHAPTER [IVX]+ \(PCUS\)', line)\<close>.\<close>

definition is_chapter_header :: "string \<Rightarrow> bool" where
  "is_chapter_header line =
     (case lit ''CHAPTER '' line of None \<Rightarrow> False | Some r0 \<Rightarrow>
      (case run1 is_roman r0 of None \<Rightarrow> False | Some (n, r1) \<Rightarrow>
         lit '' (PCUS)'' r1 \<noteq> None))"

text \<open>The condition under which a line is skipped; \<open>line == current_title\<close> is false when
  the title is \<open>None\<close>.\<close>

definition is_skipped :: "string \<Rightarrow> string option \<Rightarrow> bool" where
  "is_skipped line current_title =
     (line = []
      \<or> startswith line ''Presbyterian Church''
      \<or> startswith line ''in the United States''
      \<or> startswith line ''The United Presbyterian''
      \<or> startswith line ''CHAPTER''
      \<or> startswith line ''Of the Old Testament''
      \<or> startswith line ''Of the New Testament''
      \<or> (startswith line ''Of '' \<and> Some line = current_title))"

text \<open>\<open>re.match(r'^[IVX]+ (Samuel|Kings|...)', line)\<close>.\<close>

definition numbered_books :: "string list" where
  "numbered_books = [''Samuel'', ''Kings'', ''Chronicles'', ''Corinthians'', ''Thessalonians'',
     ''Timothy'', ''Peter'', ''John'']"

definition is_numbered_book :: "string \<Rightarrow> bool" where
  "is_numbered_book line =
     (case run1 is_roman line of None \<Rightarrow> False | Some (n, r0) \<Rightarrow>
      (case lit '' '' r0 of None \<Rightarrow> False | Some r1 \<Rightarrow>
         list_ex (startswith r1) numbered_books))"

text \<open>\<open>re.match(r'^(Genesis|Exodus|...)', line)\<close>.\<close>

definition books :: "string list" where
  "books = [''Genesis'', ''Exodus'', ''Leviticus'', ''Numbers'', ''Deuteronomy'', ''Joshua'',
     ''Judges'', ''Ruth'', ''Samuel'', ''Kings'', ''Chronicles'', ''Ezra'', ''Nehemiah'',
     ''Esther'', ''Job'', ''Psalms'', ''Proverbs'', ''Ecclesiastes'', ''Isaiah'', ''Jeremiah'',
     ''Lamentations'', ''Ezekiel'', ''Daniel'', ''Hosea'', ''Joel'', ''Amos'', ''Obadiah'',
     ''Jonah'', ''Micah'', ''Nahum'', ''Habakkuk'', ''Zephaniah'', ''Haggai'', ''Zechariah'',
     ''Malachi'', ''Matthew'', ''Mark'', ''Luke'', ''John'', ''Acts'', ''Romans'',
     ''Corinthians'', ''Galatians'', ''Ephesians'', ''Philippians'', ''Colossians'',
     ''Thessalonians'', ''Timothy'', ''Titus'', ''Philemon'', ''Hebrews'', ''James'', ''Peter'',
     ''Jude'', ''Revelation'']"

definition is_book :: "string \<Rightarrow> bool" where
  "is_book line = list_ex (startswith line) books"

section \<open>The segmenter\<close>

text \<open>An entry of \<open>sections\<close>: the dictionary with the keys \<open>chapter\<close>, \<open>title\<close>,
  \<open>content\<close> and \<open>topics\<close>.\<close>

record section_rec =
  chapter_str :: string
  title :: string
  content :: string
  topics :: "string list"

text \<open>The local variables of \<open>parse_westminster\<close> that the loop updates.\<close>

record state =
  sections :: "section_rec list"
  current_chapter :: "nat option"
  current_title :: "string option"
  current_content :: "string list"
  chapter_num :: nat

definition init_state :: state where
  "init_state = \<lparr>sections = [], current_chapter = None, current_title = None,
     current_content = [], chapter_num = 0\<rparr>"

text \<open>
  Saving the open chapter, as written twice in the source (at a chapter header and after
  the loop): the list \<open>sections\<close> afterwards. \<open>current_title\<close> is true when it is a
  non-empty string, \<open>content_text\<close> when it is non-empty.
\<close>

definition save_chapter :: "state \<Rightarrow> section_rec list" where
  "save_chapter st =
     (case current_chapter st of
        None \<Rightarrow> sections st
      | Some ch \<Rightarrow>
          (case current_title st of
             None \<Rightarrow> sections st
           | Some t \<Rightarrow>
               if t = [] then sections st
               else (let content_text = clean_content (current_content st) (Some t)
                     in if content_text \<noteq> []
                        then sections st @
                          [\<lparr>chapter_str = str ch, title = clean_title t,
                            content = content_text, topics = get_topics t\<rparr>]
                        else sections st)))"

text \<open>
  The title lookahead: the loop over \<open>lines[i+1 : min(i+10, len(lines))]\<close>, with
  \<open>title_parts\<close> as accumulator; \<open>break\<close> returns it.
\<close>

fun title_scan :: "string list \<Rightarrow> string list \<Rightarrow> string list" where
  "title_scan title_parts [] = title_parts"
| "title_scan title_parts (l # ls) =
     (let title_line = strip l
      in if startswith title_line ''Of '' then title_scan (title_parts @ [title_line]) ls
         else if title_parts \<noteq> [] \<and> title_line \<noteq> [] \<and> \<not> startswith title_line ''[''
           then title_scan (title_parts @ [title_line]) ls
         else if title_parts \<noteq> [] then title_parts
         else title_scan title_parts ls)"

text \<open>
  One iteration of the \<open>while\<close> loop at index \<open>i\<close>: \<open>raw\<close> is \<open>lines[i]\<close> and \<open>rest\<close> the
  lines after it, \<open>lines[i+1:]\<close>, of which the lookahead reads the first nine.
\<close>

definition step :: "state \<Rightarrow> string \<Rightarrow> string list \<Rightarrow> state" where
  "step st raw rest =
     (let line = strip raw
      in if is_chapter_header line then
           (let secs = save_chapter st;
                n = chapter_num st + 1;
                title_parts = title_scan [] (take 9 rest)
            in \<lparr>sections = secs, current_chapter = Some n,
                 current_title = (if title_parts \<noteq> [] then Some (join title_parts) else None),
                 current_content = [], chapter_num = n\<rparr>)
         else if is_skipped line (current_title st) then st
         else if current_chapter st \<noteq> None then
           (if \<not> is_numbered_book line then
              (if \<not> is_book line then st\<lparr>current_content := current_content st @ [line]\<rparr>
               else st)
            else st)
         else st)"

text \<open>The \<open>while\<close> loop from index \<open>i\<close> on, over the lines \<open>lines[i:]\<close>.\<close>

fun run :: "state \<Rightarrow> string list \<Rightarrow> state" where
  "run st [] = st"
| "run st (l # ls) = run (step st l ls) ls"

text \<open>\<open>parse_westminster\<close> up to the list \<open>sections\<close> that it writes: the loop from the
  initial state, then the last chapter saved.\<close>

definition parse_westminster :: "string list \<Rightarrow> section_rec list" where
  "parse_westminster lines = save_chapter (run init_state lines)"

section \<open>Notions used in the statements and proofs\<close>

text \<open>A matcher that only matches at an opening bracket and consumes at least one
  character: all the patterns of the substitutions but \<open>\s+\<close> are of this kind.\<close>

definition bracket_matcher :: "matcher \<Rightarrow> bool" where
  "bracket_matcher m = (\<forall>s rep rest. m s = Some (rep, rest) \<longrightarrow>
     (\<exists>t. s = CHR ''['' # t) \<and> length rest < length s)"

text \<open>The open chapter of a state is dropped when it is saved: it has no title, or its
  normalized content is empty.\<close>

definition dropped :: "state \<Rightarrow> bool" where
  "dropped st = (current_title st = None \<or> current_title st = Some []
      \<or> clean_content (current_content st) (current_title st) = [])"

text \<open>The chapter fields are the decimal forms of numbers that increase strictly, from 1
  on and below a bound.\<close>

definition increasing_from_1 :: "section_rec list \<Rightarrow> nat \<Rightarrow> bool" where
  "increasing_from_1 secs bound =
     (\<exists>ns. map chapter_str secs = map str ns \<and> sorted_wrt (<) ns \<and>
        (\<forall>n\<in>set ns. 1 \<le> n \<and> n < bound))"

text \<open>The invariant of the loop on the chapter numbers: an open chapter bears the value
  of the counter, and the saved sections bear smaller numbers.\<close>

definition numbered :: "state \<Rightarrow> bool" where
  "numbered st =
     ((case current_chapter st of None \<Rightarrow> True | Some ch \<Rightarrow> ch = chapter_num st \<and> 1 \<le> ch)
      \<and> increasing_from_1 (sections st)
           (case current_chapter st of None \<Rightarrow> Suc (chapter_num st) | Some ch \<Rightarrow> ch))"

text \<open>The lines that \<open>readlines\<close> returns for a file of the given lines, each ended by a
  newline.\<close>

definition file_lines :: "string list \<Rightarrow> string list" where
  "file_lines ls = map (\<lambda>l. l @ [CHR 0x0A]) ls"

text \<open>A file of three chapters: the second one has a title (found by the lookahead behind
  the third header) and no content.\<close>

definition ex_gap :: "string list" where
  "ex_gap = file_lines [''CHAPTER I (PCUS)'', ''Of God'', '''', ''There is one God.'',
     ''CHAPTER II (PCUS)'', ''CHAPTER III (PCUS)'', ''Of Man'', '''', ''Man fell.'']"

text \<open>A file of three chapters: the content of the second one is a reference code only,
  and the third one has no title.\<close>

definition ex_empty :: "string list" where
  "ex_empty = file_lines [''CHAPTER I (PCUS)'', ''Of God'', '''', ''There is one God.'',
     ''CHAPTER II (PCUS)'', ''Of Man'', ''[2.1]'', ''CHAPTER III (PCUS)'']"

text \<open>The invariant of the loop on titles: the raw title of the open chapter starts with
  the lead-in word, and every saved title is that word or starts with it and a space.\<close>

definition titled :: "state \<Rightarrow> bool" where
  "titled st = ((\<forall>t. current_title st = Some t \<longrightarrow> startswith t ''Of '') \<and>
     (\<forall>s\<in>set (sections st). title s = ''Of'' \<or> startswith (title s) ''Of ''))"

text \<open>A file of one chapter whose title is the lead-in word and a variant of spaces.\<close>

definition ex_of :: "string list" where
  "ex_of = file_lines [''CHAPTER I (PCUS)'', ''Of [PCUS  ]'', '''', ''Body text.'']"

text \<open>A file of one chapter whose title has a pair of variants: the discarded one holds a
  key phrase, the kept one does not.\<close>

definition ex_variant :: "string list" where
  "ex_variant = file_lines [''CHAPTER I (PCUS)'', ''Of [PCUS God] [UPCUSA Man]'', '''',
     ''Body text.'']"

text \<open>A text without brackets.\<close>

definition plain :: "string \<Rightarrow> bool" where
  "plain s = (CHR ''['' \<notin> set s \<and> CHR '']'' \<notin> set s)"

text \<open>A stripped line is collected as content of a chapter with the raw title \<open>t\<close>: it is
  not skipped and is no line of a book list.\<close>

definition collected :: "string option \<Rightarrow> string \<Rightarrow> bool" where
  "collected t line =
     (\<not> is_skipped line t \<and> \<not> is_numbered_book line \<and> \<not> is_book line)"

text \<open>A file of two chapters: the first one has a title and one content line, a reference
  code; the second one has no title.\<close>

definition ex_refcode_only :: "string list" where
  "ex_refcode_only = file_lines [''CHAPTER I (PCUS)'', ''Of God'', ''[1.1]'',
     ''CHAPTER II (PCUS)'', ''No title follows.'']"

text \<open>The number of lines that match the chapter header pattern.\<close>

definition count_headers :: "string list \<Rightarrow> nat" where
  "count_headers lines = length (filter (\<lambda>l. is_chapter_header (strip l)) lines)"

text \<open>The state of the loop when its index is \<open>i\<close>: after \<open>i\<close> iterations, or at the end.\<close>

fun run_upto :: "nat \<Rightarrow> state \<Rightarrow> string list \<Rightarrow> state" where
  "run_upto 0 st ls = st"
| "run_upto (Suc i) st [] = st"
| "run_upto (Suc i) st (l # ls) = run_upto i (step st l ls) ls"


text \<open>A text whose brackets are not nested: no opening bracket stands between an opening
  bracket and the next closing bracket. The flag tells whether a bracket is open.\<close>

fun flat_from :: "bool \<Rightarrow> string \<Rightarrow> bool" where
  "flat_from b [] = True"
| "flat_from b (c # cs) =
     (if c = CHR ''['' then \<not> b \<and> flat_from True cs
      else if c = CHR '']'' then flat_from False cs
      else flat_from b cs)"

definition flat :: "string \<Rightarrow> bool" where
  "flat s = flat_from False s"

text \<open>A matcher matches at no position of a text.\<close>

fun nomatch :: "matcher \<Rightarrow> string \<Rightarrow> bool" where
  "nomatch m [] = (m [] = None)"
| "nomatch m (c # cs) = (m (c # cs) = None \<and> nomatch m cs)"

text \<open>A matcher whose matches, in a text without nested brackets, leave a replacement
  without brackets and a rest without nested brackets that ends the text.\<close>

definition group_matcher :: "matcher \<Rightarrow> bool" where
  "group_matcher m = (bracket_matcher m \<and>
     (\<forall>s rep rest. m s = Some (rep, rest) \<and> flat_from False s \<longrightarrow>
        plain rep \<and> flat_from False rest \<and> (\<exists>a. s = a @ rest)))"

text \<open>The steps of \<open>clean_content\<close> after its first substitution, the one of the reference
  codes: the four substitutions of the variants, the removal of the resolved title at the
  beginning, the whitespace collapsed and the text trimmed.\<close>

definition after_refcodes :: "string \<Rightarrow> string option \<Rightarrow> string" where
  "after_refcodes text0 chapter_title =
     (let text = re_sub m_pcus_upcusa text0;
          text = re_sub m_upcusa_pcus text;
          text = re_sub m_pcus text;
          text = re_sub m_upcusa text;
          text = (case chapter_title of
                    None \<Rightarrow> text
                  | Some t \<Rightarrow>
                      if t = [] then text
                      else (let clean_title_text = clean_title t
                            in if startswith text clean_title_text
                               then strip (drop (length clean_title_text) text)
                               else text));
          text = re_sub m_spaces text
      in strip text)"

text \<open>The four substitutions of the variant annotations, in the order of the source: the
  part that \<open>clean_title\<close> and \<open>clean_content\<close> share.\<close>

definition resolve_variants :: "string \<Rightarrow> string" where
  "resolve_variants text =
     re_sub m_upcusa (re_sub m_pcus (re_sub m_upcusa_pcus (re_sub m_pcus_upcusa text)))"

text \<open>The raw title of the chapter whose header is line \<open>i\<close>: the title lines that the
  lookahead finds in the nine lines behind the header, joined; \<open>None\<close> when it finds none.\<close>

definition raw_title :: "string list \<Rightarrow> nat \<Rightarrow> string option" where
  "raw_title lines i =
     (let title_parts = title_scan [] (take 9 (drop (Suc i) lines))
      in if title_parts \<noteq> [] then Some (join title_parts) else None)"

text \<open>A section comes from the header at line \<open>i\<close>: its chapter field is the rank of that
  header among the headers of the file, and its title and topics are those of the raw title
  found behind that header.\<close>

definition section_of_header :: "string list \<Rightarrow> nat \<Rightarrow> section_rec \<Rightarrow> bool" where
  "section_of_header lines i s =
     (i < length lines \<and> is_chapter_header (strip (lines ! i)) \<and>
      chapter_str s = str (count_headers (take (Suc i) lines)) \<and>
      (case raw_title lines i of None \<Rightarrow> False
       | Some t \<Rightarrow> title s = clean_title t \<and> topics s = get_topics t))"

text \<open>The invariant of the loop at index \<open>n\<close>: the counter is the number of headers among
  the first \<open>n\<close> lines; an open chapter bears the rank of its header and the raw title found
  behind it; every saved section comes from a header.\<close>

definition tracks :: "string list \<Rightarrow> nat \<Rightarrow> state \<Rightarrow> bool" where
  "tracks lines n st =
     (chapter_num st = count_headers (take n lines) \<and>
      (case current_chapter st of None \<Rightarrow> True
       | Some ch \<Rightarrow> \<exists>j<n. j < length lines \<and> is_chapter_header (strip (lines ! j)) \<and>
           ch = count_headers (take (Suc j) lines) \<and> current_title st = raw_title lines j) \<and>
      (\<forall>s\<in>set (sections st). \<exists>i. section_of_header lines i s))"

text \<open>A file of three chapters: the second one has content and no title, as none of the
  nine lines behind its header starts with the lead-in word.\<close>

definition ex_untitled :: "string list" where
  "ex_untitled = file_lines [''CHAPTER I (PCUS)'', ''Of God'', '''', ''There is one God.'',
     ''CHAPTER II (PCUS)'', ''He is good.'', ''He is wise.'', ''He is holy.'', ''He is just.'',
     ''He is one.'', ''He is true.'', ''He is kind.'', ''He is near.'', ''He is Lord.'',
     ''CHAPTER III (PCUS)'', ''Of Man'', '''', ''Man fell.'']"

section \<open>Literals, runs and substitution\<close>

lemma lit_Some: "lit p s = Some r \<longleftrightarrow> s = p @ r"
  by (auto simp: lit_def startswith_def) (metis append_take_drop_id)

lemma lit_append [simp]: "lit p (p @ r) = Some r"
  by (simp add: lit_Some)

lemma run1_Some: "run1 P s = Some (x, r) \<Longrightarrow> s = x @ r \<and> x \<noteq> [] \<and> (\<forall>c\<in>set x. P c) \<and> (r = [] \<or> \<not> P (hd r))"
  by (auto simp: run1_def split: if_splits dest: set_takeWhileD) (metis dropWhile_eq_Nil_conv hd_dropWhile)

lemma run1_append: "x \<noteq> [] \<Longrightarrow> \<forall>c\<in>set x. P c \<Longrightarrow> \<not> P c \<Longrightarrow> run1 P (x @ c # r) = Some (x, c # r)"
  by (simp add: run1_def takeWhile_append2 dropWhile_append2 takeWhile_eq_Nil_iff) 

lemma tag_group_Some: "tag_group tag s = Some (x, r) \<Longrightarrow> s = ''['' @ tag @ '' '' @ x @ '']'' @ r \<and> x \<noteq> [] \<and> CHR '']'' \<notin> set x"
  by (auto simp: tag_group_def lit_Some not_rbracket_def split: option.splits dest!: run1_Some)

lemma tag_group_append: 
  assumes "x \<noteq> []" "CHR '']'' \<notin> set x"
  shows "tag_group tag (''['' @ tag @ '' '' @ x @ '']'' @ r) = Some (x, r)"
proof -
  have 1: "lit (''['' @ tag @ '' '') (''['' @ tag @ '' '' @ x @ '']'' @ r) = Some (x @ '']'' @ r)"
    by (simp add: lit_Some)
  have 2: "run1 not_rbracket (x @ '']'' @ r) = Some (x, '']'' @ r)"
    using run1_append[of x not_rbracket "CHR '']''" r] assms by (auto simp: not_rbracket_def)
  have 3: "lit '']'' ('']'' @ r) = Some r"
    by (simp add: lit_Some)
  show ?thesis
    unfolding tag_group_def by (simp only: 1 2 3 option.case prod.case)
qed

lemma m_refcode_Some:
  assumes "m_refcode s = Some (rep, r)"
  shows "rep = [] \<and> (\<exists>t. s = CHR ''['' # t) \<and> length r < length s"
  using assms
  by (auto simp: m_refcode_def lit_Some split: option.splits dest!: run1_Some)

lemma m_refcode_append:
  assumes "d1 \<noteq> []" "d2 \<noteq> []" "\<forall>c\<in>set (d1 @ d2). is_digit c"
  shows "m_refcode (''['' @ d1 @ ''.'' @ d2 @ '']'' @ r) = Some ([], r)"
proof -
  have 1: "lit ''['' (''['' @ d1 @ ''.'' @ d2 @ '']'' @ r) = Some (d1 @ ''.'' @ d2 @ '']'' @ r)"
    by (simp add: lit_Some)
  have 2: "run1 is_digit (d1 @ ''.'' @ d2 @ '']'' @ r) = Some (d1, ''.'' @ d2 @ '']'' @ r)"
    using run1_append[of d1 is_digit "CHR ''.''" "d2 @ '']'' @ r"] assms by (auto simp: is_digit_def)
  have 3: "lit ''.'' (''.'' @ d2 @ '']'' @ r) = Some (d2 @ '']'' @ r)"
    by (simp add: lit_Some)
  have 4: "run1 is_digit (d2 @ '']'' @ r) = Some (d2, '']'' @ r)"
    using run1_append[of d2 is_digit "CHR '']''" r] assms by (auto simp: is_digit_def)
  have 5: "lit '']'' ('']'' @ r) = Some r"
    by (simp add: lit_Some)
  show ?thesis
    unfolding m_refcode_def by (simp only: 1 2 3 4 5 option.case prod.case)
qed

lemma bracket_refcode: "bracket_matcher m_refcode"
  unfolding bracket_matcher_def by (auto dest!: m_refcode_Some)

lemma bracket_tag_group: "bracket_matcher (tag_group tag)"
  unfolding bracket_matcher_def by (auto dest!: tag_group_Some)

lemma bracket_pcus: "bracket_matcher m_pcus" and bracket_upcusa: "bracket_matcher m_upcusa"
  using bracket_tag_group by (simp_all add: m_pcus_def[abs_def] m_upcusa_def[abs_def])

lemma m_pcus_upcusa_Some: "m_pcus_upcusa s = Some (rep, r) \<Longrightarrow>
   \<exists>x. s = ''[PCUS '' @ x @ ''] [UPCUSA '' @ rep @ '']'' @ r \<and> x \<noteq> [] \<and> rep \<noteq> [] \<and> CHR '']'' \<notin> set x \<and> CHR '']'' \<notin> set rep"
  by (auto simp: m_pcus_upcusa_def lit_Some split: option.splits dest!: tag_group_Some)

lemma m_upcusa_pcus_Some: "m_upcusa_pcus s = Some (rep, r) \<Longrightarrow>
   \<exists>x. s = ''[UPCUSA '' @ rep @ ''] [PCUS '' @ x @ '']'' @ r \<and> x \<noteq> [] \<and> rep \<noteq> [] \<and> CHR '']'' \<notin> set x \<and> CHR '']'' \<notin> set rep"
  by (auto simp: m_upcusa_pcus_def lit_Some split: option.splits dest!: tag_group_Some)

lemma bracket_pcus_upcusa: "bracket_matcher m_pcus_upcusa"
  unfolding bracket_matcher_def by (auto dest!: m_pcus_upcusa_Some)

lemma bracket_upcusa_pcus: "bracket_matcher m_upcusa_pcus"
  unfolding bracket_matcher_def by (auto dest!: m_upcusa_pcus_Some)

text \<open>Every pattern of the program consumes at least one character where it matches, so
  the scan of \<open>re_sub\<close> always resumes after the match.\<close>

lemma m_spaces_progress: "m_spaces s = Some (rep, rest) \<Longrightarrow> length rest < length s"
  by (auto simp: m_spaces_def split: option.splits dest!: run1_Some)

lemma re_sub_match:
  assumes "bracket_matcher m" "m s = Some (rep, rest)"
  shows "re_sub m s = rep @ re_sub m rest"
proof -
  from assms obtain t where s: "s = CHR ''['' # t" and "length rest < length s"
    unfolding bracket_matcher_def by blast
  then have "length rest \<le> length t" by simp
  with assms(2) show ?thesis unfolding s by simp
qed

lemma re_sub_skip: "bracket_matcher m \<Longrightarrow> CHR ''['' \<notin> set pre \<Longrightarrow> re_sub m (pre @ s) = pre @ re_sub m s"
proof (induction pre)
  case Nil then show ?case by simp
next
  case (Cons c pre)
  then have "m (c # pre @ s) = None"
    by (cases "m (c # pre @ s)") (auto simp: bracket_matcher_def)
  with Cons show ?case by simp
qed

lemma re_sub_plain: "bracket_matcher m \<Longrightarrow> CHR ''['' \<notin> set s \<Longrightarrow> re_sub m s = s"
  using re_sub_skip[of m s "[]"] by simp


lemma clean_content_cong:
  "re_sub m_refcode (join ls) = re_sub m_refcode (join ls') \<Longrightarrow> clean_content ls t = clean_content ls' t"
  by (simp add: clean_content_def)

lemma clean_content_after:
  "clean_content content_lines t = after_refcodes (re_sub m_refcode (join content_lines)) t"
  by (simp add: clean_content_def after_refcodes_def)

lemma takeWhile_before_bracket:
  "\<not> P (CHR ''['') \<Longrightarrow> takeWhile P (t @ CHR ''['' # X) = takeWhile P t"
  by (induction t) auto

lemma dropWhile_before_bracket:
  "\<not> P (CHR ''['') \<Longrightarrow> dropWhile P (t @ CHR ''['' # X) = dropWhile P t @ CHR ''['' # X"
  by (induction t) auto

lemma run1_before_bracket:
  "\<not> P (CHR ''['') \<Longrightarrow> run1 P (t @ CHR ''['' # X) =
     map_option (\<lambda>(a, r). (a, r @ CHR ''['' # X)) (run1 P t)"
  by (simp add: run1_def takeWhile_before_bracket dropWhile_before_bracket)

lemma lit1_before_bracket:
  "c \<noteq> CHR ''['' \<Longrightarrow> lit [c] (t @ CHR ''['' # X) = map_option (\<lambda>r. r @ CHR ''['' # X) (lit [c] t)"
  by (cases t) (auto simp: lit_def startswith_def)

lemma lit1_nonempty: "s \<noteq> [] \<Longrightarrow> lit [c] (s @ Z) = map_option (\<lambda>r. r @ Z) (lit [c] s)"
  by (cases s) (auto simp: lit_def startswith_def)

lemma m_refcode_before_bracket:
  "s \<noteq> [] \<Longrightarrow> m_refcode (s @ CHR ''['' # X) =
     map_option (\<lambda>(rep, r). (rep, r @ CHR ''['' # X)) (m_refcode s)"
  unfolding m_refcode_def
  by (auto simp: lit1_nonempty run1_before_bracket lit1_before_bracket is_digit_def
      split: option.splits)

lemma refcode_split:
  "re_sub m_refcode (pre @ CHR ''['' # X) = re_sub m_refcode pre @ re_sub m_refcode (CHR ''['' # X)"
proof (induction pre rule: length_induct)
  case (1 pre)
  show ?case
  proof (cases pre)
    case Nil then show ?thesis by simp
  next
    case (Cons c cs)
    show ?thesis
    proof (cases "m_refcode (c # cs)")
      case None
      then have "m_refcode (c # cs @ CHR ''['' # X) = None"
        using m_refcode_before_bracket[of "c # cs" X] by simp
      moreover have "re_sub m_refcode (cs @ CHR ''['' # X) =
          re_sub m_refcode cs @ re_sub m_refcode (CHR ''['' # X)"
        using 1 Cons by simp
      ultimately show ?thesis using None Cons by simp
    next
      case (Some p)
      obtain rep rest where p: "p = (rep, rest)" by (cases p)
      have m: "m_refcode pre = Some (rep, rest)" using Some p Cons by simp
      then have e: "m_refcode (pre @ CHR ''['' # X) = Some (rep, rest @ CHR ''['' # X)"
        using m_refcode_before_bracket[of pre X] Cons by simp
      have "length rest < length pre"
        using m bracket_refcode unfolding bracket_matcher_def by blast
      then have "re_sub m_refcode (rest @ CHR ''['' # X) =
          re_sub m_refcode rest @ re_sub m_refcode (CHR ''['' # X)"
        using 1 by simp
      then show ?thesis
        using re_sub_match[OF bracket_refcode m] re_sub_match[OF bracket_refcode e] by simp
    qed
  qed
qed

lemma m_refcode_Some_full:
  assumes "m_refcode s = Some (rep, r)"
  shows "\<exists>d1 d2. s = ''['' @ d1 @ ''.'' @ d2 @ '']'' @ r \<and> d1 \<noteq> [] \<and> d2 \<noteq> [] \<and>
     (\<forall>c\<in>set (d1 @ d2). is_digit c) \<and> rep = []"
proof -
  from assms obtain r0 d1 r1 r2 d2 r3 where
    a: "lit ''['' s = Some r0" "run1 is_digit r0 = Some (d1, r1)" "lit ''.'' r1 = Some r2"
      "run1 is_digit r2 = Some (d2, r3)" "lit '']'' r3 = Some r" "rep = []"
    by (auto simp: m_refcode_def split: option.splits)
  from a(1,3,5) have "s = ''['' @ r0" "r1 = ''.'' @ r2" "r3 = '']'' @ r"
    by (simp_all add: lit_Some)
  moreover from run1_Some[OF a(2)] run1_Some[OF a(4)]
  have "r0 = d1 @ r1" "d1 \<noteq> []" "\<forall>c\<in>set d1. is_digit c" "r2 = d2 @ r3" "d2 \<noteq> []"
      "\<forall>c\<in>set d2. is_digit c"
    by simp_all
  ultimately have "s = ''['' @ d1 @ ''.'' @ d2 @ '']'' @ r \<and> d1 \<noteq> [] \<and> d2 \<noteq> [] \<and>
     (\<forall>c\<in>set (d1 @ d2). is_digit c) \<and> rep = []"
    using a(6) by auto
  then show ?thesis by blast
qed

lemma m_refcode_extend:
  assumes "m_refcode s = Some (rep, r)"
  shows "m_refcode (s @ Z) = Some (rep, r @ Z)"
proof -
  from m_refcode_Some_full[OF assms] obtain d1 d2 where
    s: "s = ''['' @ d1 @ ''.'' @ d2 @ '']'' @ r" and d: "d1 \<noteq> []" "d2 \<noteq> []"
      "\<forall>c\<in>set (d1 @ d2). is_digit c" and r: "rep = []"
    by blast
  have "s @ Z = ''['' @ d1 @ ''.'' @ d2 @ '']'' @ (r @ Z)" by (subst s) simp
  with m_refcode_append[OF d, of "r @ Z"] r show ?thesis by simp
qed

lemma refcode_prefix:
  "CHR ''['' \<notin> set (re_sub m_refcode pre) \<Longrightarrow>
   re_sub m_refcode (pre @ Z) = re_sub m_refcode pre @ re_sub m_refcode Z"
proof (induction pre rule: length_induct)
  case (1 pre)
  show ?case
  proof (cases pre)
    case Nil then show ?thesis by simp
  next
    case (Cons c cs)
    show ?thesis
    proof (cases "m_refcode (c # cs)")
      case None
      with 1(2) Cons have c: "c \<noteq> CHR ''[''" and cs: "CHR ''['' \<notin> set (re_sub m_refcode cs)"
        by auto
      from c have "m_refcode (c # cs @ Z) = None"
        using bracket_refcode unfolding bracket_matcher_def
        by (cases "m_refcode (c # cs @ Z)") auto
      moreover have "re_sub m_refcode (cs @ Z) = re_sub m_refcode cs @ re_sub m_refcode Z"
        using 1(1) cs Cons by simp
      ultimately show ?thesis using None Cons by simp
    next
      case (Some p)
      obtain rep rest where p: "p = (rep, rest)" by (cases p)
      have m: "m_refcode pre = Some (rep, rest)" using Some p Cons by simp
      have e: "m_refcode (pre @ Z) = Some (rep, rest @ Z)" by (rule m_refcode_extend[OF m])
      have l: "length rest < length pre"
        using m bracket_refcode unfolding bracket_matcher_def by blast
      have "CHR ''['' \<notin> set (re_sub m_refcode rest)"
        using 1(2) re_sub_match[OF bracket_refcode m] by simp
      with l have "re_sub m_refcode (rest @ Z) = re_sub m_refcode rest @ re_sub m_refcode Z"
        using 1(1) by simp
      then show ?thesis
        using re_sub_match[OF bracket_refcode m] re_sub_match[OF bracket_refcode e] by simp
    qed
  qed
qed

lemma refcode_removed:
  assumes "d1 \<noteq> []" "d2 \<noteq> []" "\<forall>c\<in>set (d1 @ d2). is_digit c"
  shows "re_sub m_refcode (pre @ ''['' @ d1 @ ''.'' @ d2 @ '']'' @ post) =
     re_sub m_refcode pre @ re_sub m_refcode post"
proof -
  have "re_sub m_refcode (pre @ CHR ''['' # (d1 @ ''.'' @ d2 @ '']'' @ post)) =
      re_sub m_refcode pre @ re_sub m_refcode (CHR ''['' # (d1 @ ''.'' @ d2 @ '']'' @ post))"
    by (rule refcode_split)
  moreover have "re_sub m_refcode (''['' @ d1 @ ''.'' @ d2 @ '']'' @ post) = re_sub m_refcode post"
    using re_sub_match[OF bracket_refcode m_refcode_append[OF assms, of post]] by simp
  ultimately show ?thesis by simp
qed

text \<open>
  Claim C7. \<open>clean_content\<close> removes every bracketed reference code \<open>[digits.digits]\<close> of
  the joined content lines entirely, on whichever line it stands and whatever stands
  before and behind it (text, other codes, annotations, other brackets): the substitution
  leaves the results of the text before the code and of the text behind it side by side,
  and the remaining steps of \<open>clean_content\<close> (\<open>after_refcodes\<close>) run on that. When the text
  before the code has no opening bracket but those of reference codes, the content is
  normalized to what the text without the code is normalized to. The line
  \<open>[6.001] All men are sinners.\<close>, with no title, gives \<open>All men are sinners.\<close>
\<close>

theorem clean_content_strips_refcode:
  "(\<forall>content_lines pre d1 d2 post t.
      join content_lines = pre @ ''['' @ d1 @ ''.'' @ d2 @ '']'' @ post \<and>
      d1 \<noteq> [] \<and> d2 \<noteq> [] \<and> (\<forall>c\<in>set (d1 @ d2). is_digit c) \<longrightarrow>
      clean_content content_lines t =
        after_refcodes (re_sub m_refcode pre @ re_sub m_refcode post) t \<and>
      (CHR ''['' \<notin> set (re_sub m_refcode pre) \<longrightarrow>
         clean_content content_lines t = clean_content [pre @ post] t))
   \<and> (\<forall>content_lines t.
        clean_content content_lines t = after_refcodes (re_sub m_refcode (join content_lines)) t)
   \<and> clean_content [''[6.001] All men are sinners.''] None = ''All men are sinners.''"
proof (intro conjI allI impI)
  fix content_lines pre d1 d2 post t
  assume a: "join content_lines = pre @ ''['' @ d1 @ ''.'' @ d2 @ '']'' @ post \<and>
      d1 \<noteq> [] \<and> d2 \<noteq> [] \<and> (\<forall>c\<in>set (d1 @ d2). is_digit c)"
  then have r: "re_sub m_refcode (join content_lines) =
      re_sub m_refcode pre @ re_sub m_refcode post"
    using refcode_removed[of d1 d2 pre post] by simp
  then show "clean_content content_lines t =
      after_refcodes (re_sub m_refcode pre @ re_sub m_refcode post) t"
    by (simp add: clean_content_after)
  assume "CHR ''['' \<notin> set (re_sub m_refcode pre)"
  then have "re_sub m_refcode (join [pre @ post]) = re_sub m_refcode pre @ re_sub m_refcode post"
    by (simp add: refcode_prefix)
  with r show "clean_content content_lines t = clean_content [pre @ post] t"
    by (intro clean_content_cong) simp
next
  fix content_lines t
  show "clean_content content_lines t = after_refcodes (re_sub m_refcode (join content_lines)) t"
    by (rule clean_content_after)
next
  show "clean_content [''[6.001] All men are sinners.''] None = ''All men are sinners.''"
    by code_simp
qed

theorem clean_content_strips_refcode_witness:
  "clean_content [''The [PCUS civil] magistrate'', ''[6.002] shall rule.''] None
      = ''The civil magistrate shall rule.''
   \<and> clean_content [''[6.001] see [12.3] here''] None = clean_content [''[6.001] see  here''] None
   \<and> clean_content [''[6.001] see [12.3] here''] None = ''see here''"
proof -
  have j: "join [''The [PCUS civil] magistrate'', ''[6.002] shall rule.''] =
      ''The [PCUS civil] magistrate '' @ ''['' @ ''6'' @ ''.'' @ ''002'' @ '']'' @ '' shall rule.''"
    by code_simp
  have d: "''6'' \<noteq> []" "''002'' \<noteq> []" "\<forall>c\<in>set (''6'' @ ''002''). is_digit c"
    by (simp_all add: is_digit_def)
  from clean_content_strips_refcode j d
  have "clean_content [''The [PCUS civil] magistrate'', ''[6.002] shall rule.''] None =
      after_refcodes (re_sub m_refcode ''The [PCUS civil] magistrate '' @
        re_sub m_refcode '' shall rule.'') None"
    by blast
  moreover have "after_refcodes (re_sub m_refcode ''The [PCUS civil] magistrate '' @
        re_sub m_refcode '' shall rule.'') None = ''The civil magistrate shall rule.''"
    by code_simp
  ultimately have 1: "clean_content [''The [PCUS civil] magistrate'', ''[6.002] shall rule.''] None
      = ''The civil magistrate shall rule.''"
    by simp
  have j2: "join [''[6.001] see [12.3] here''] =
      ''[6.001] see '' @ ''['' @ ''12'' @ ''.'' @ ''3'' @ '']'' @ '' here''"
    by code_simp
  have d2: "''12'' \<noteq> []" "''3'' \<noteq> []" "\<forall>c\<in>set (''12'' @ ''3''). is_digit c"
    by (simp_all add: is_digit_def)
  have h: "CHR ''['' \<notin> set (re_sub m_refcode ''[6.001] see '')"
    by code_simp
  from clean_content_strips_refcode j2 d2 h
  have "clean_content [''[6.001] see [12.3] here''] None =
      clean_content [''[6.001] see '' @ '' here''] None"
    by blast
  then have 2: "clean_content [''[6.001] see [12.3] here''] None =
      clean_content [''[6.001] see  here''] None"
    by simp
  have "clean_content [''[6.001] see  here''] None = ''see here''" by code_simp
  with 2 have 3: "clean_content [''[6.001] see [12.3] here''] None = ''see here''" by simp
  show ?thesis using 1 2 3 by blast
qed

section \<open>The loop and the saved sections\<close>

lemma save_chapter_cases:
  "save_chapter st = sections st \<or>
   (\<exists>ch t. current_chapter st = Some ch \<and> current_title st = Some t \<and> t \<noteq> [] \<and>
      clean_content (current_content st) (Some t) \<noteq> [] \<and>
      save_chapter st = sections st @
        [\<lparr>chapter_str = str ch, title = clean_title t,
          content = clean_content (current_content st) (Some t), topics = get_topics t\<rparr>])"
  by (auto simp: save_chapter_def Let_def split: option.splits)

lemma save_chapter_dropped: "dropped st \<Longrightarrow> save_chapter st = sections st"
  by (auto simp: save_chapter_def dropped_def Let_def split: option.splits)

lemma sections_step:
  "sections (step st l rest) = (if is_chapter_header (strip l) then save_chapter st else sections st)"
  by (simp add: step_def Let_def)

text \<open>A property that every iteration keeps holds after the loop.\<close>

lemma run_invariant:
  assumes "P st" and "\<And>st l rest. P st \<Longrightarrow> P (step st l rest)"
  shows "P (run st ls)"
  using assms(1) by (induction ls arbitrary: st) (auto intro: assms(2))

subsection \<open>Content\<close>

lemma save_chapter_content:
  assumes "\<forall>s\<in>set (sections st). content s \<noteq> []"
  shows "\<forall>s\<in>set (save_chapter st). content s \<noteq> []"
  using save_chapter_cases[of st] assms by auto

lemma run_content:
  assumes "\<forall>s\<in>set (sections st). content s \<noteq> []"
  shows "\<forall>s\<in>set (sections (run st ls)). content s \<noteq> []"
proof (rule run_invariant[where P = "\<lambda>st. \<forall>s\<in>set (sections st). content s \<noteq> []"])
  show "\<forall>s\<in>set (sections st). content s \<noteq> []" by (rule assms)
next
  fix st :: state and l rest
  assume "\<forall>s\<in>set (sections st). content s \<noteq> []"
  then show "\<forall>s\<in>set (sections (step st l rest)). content s \<noteq> []"
    using save_chapter_content[of st] by (simp add: sections_step)
qed

text \<open>
  Claim C6. Every section of the output has non-empty content. A chapter whose title is
  missing or whose normalized content is empty is dropped: at the next chapter header the
  list of sections stays as it is, and so it does after the last line.
\<close>

theorem sections_have_content:
  "(\<forall>s\<in>set (parse_westminster lines). content s \<noteq> [])
   \<and> (\<forall>st l rest. is_chapter_header (strip l) \<and> dropped st \<longrightarrow>
         sections (step st l rest) = sections st)
   \<and> (dropped (run init_state lines) \<longrightarrow>
         parse_westminster lines = sections (run init_state lines))"
proof (intro conjI)
  have "\<forall>s\<in>set (sections (run init_state lines)). content s \<noteq> []"
    by (rule run_content) (simp add: init_state_def)
  then show "\<forall>s\<in>set (parse_westminster lines). content s \<noteq> []"
    unfolding parse_westminster_def by (rule save_chapter_content)
next
  show "\<forall>st l rest. is_chapter_header (strip l) \<and> dropped st \<longrightarrow>
         sections (step st l rest) = sections st"
    by (simp add: sections_step save_chapter_dropped)
next
  show "dropped (run init_state lines) \<longrightarrow>
         parse_westminster lines = sections (run init_state lines)"
    by (simp add: parse_westminster_def save_chapter_dropped)
qed

theorem sections_have_content_witness:
  "map content (parse_westminster ex_empty) = [''There is one God.'']
   \<and> content (hd (parse_westminster ex_empty)) \<noteq> []
   \<and> dropped (run init_state (take 7 ex_empty))
   \<and> is_chapter_header (strip (ex_empty ! 7))
   \<and> sections (step (run init_state (take 7 ex_empty)) (ex_empty ! 7) []) =
       sections (run init_state (take 7 ex_empty))
   \<and> dropped (run init_state ex_empty)
   \<and> parse_westminster ex_empty = sections (run init_state ex_empty)"
proof -
  have 1: "map content (parse_westminster ex_empty) = [''There is one God.'']"
    by code_simp
  have 2: "dropped (run init_state (take 7 ex_empty))" by code_simp
  have 3: "is_chapter_header (strip (ex_empty ! 7))" by code_simp
  have 4: "dropped (run init_state ex_empty)" by code_simp
  have "hd (parse_westminster ex_empty) \<in> set (parse_westminster ex_empty)"
    using 1 by (cases "parse_westminster ex_empty") auto
  then have 5: "content (hd (parse_westminster ex_empty)) \<noteq> []"
    using sections_have_content[of ex_empty] by blast
  have 6: "sections (step (run init_state (take 7 ex_empty)) (ex_empty ! 7) []) =
       sections (run init_state (take 7 ex_empty))"
    using sections_have_content[of ex_empty] 2 3 by blast
  have 7: "parse_westminster ex_empty = sections (run init_state ex_empty)"
    using sections_have_content[of ex_empty] 4 by blast
  show ?thesis using 1 2 3 4 5 6 7 by blast
qed

subsection \<open>Front matter\<close>

lemma step_closed:
  "current_chapter st = None \<Longrightarrow> \<not> is_chapter_header (strip l) \<Longrightarrow> step st l rest = st"
  by (simp add: step_def Let_def)

lemma run_front_matter:
  assumes "current_chapter st = None" "\<forall>l\<in>set pre. \<not> is_chapter_header (strip l)"
  shows "run st (pre @ rest) = run st rest"
  using assms by (induction pre) (simp_all add: step_closed)

text \<open>
  Claim C9. The lines before the first chapter header are discarded: with no chapter
  open nothing is collected, so the loop reaches the first header in its initial state and
  the output is the one of the input without these lines.
\<close>

theorem front_matter_discarded:
  assumes "\<forall>l\<in>set pre. \<not> is_chapter_header (strip l)"
  shows "run init_state pre = init_state
     \<and> run init_state (pre @ rest) = run init_state rest
     \<and> parse_westminster (pre @ rest) = parse_westminster rest"
  using run_front_matter[OF _ assms, of init_state rest] run_front_matter[OF _ assms, of init_state "[]"]
  by (simp add: parse_westminster_def init_state_def)

theorem front_matter_discarded_witness:
  "\<not> is_chapter_header (strip ''The Westminster Confession'')
   \<and> \<not> is_chapter_header (strip ''Some preface text.'')
   \<and> parse_westminster ([''The Westminster Confession'', ''Some preface text.''] @ ex_gap) =
       parse_westminster ex_gap
   \<and> map content (parse_westminster
         ([''The Westminster Confession'', ''Some preface text.''] @ ex_gap)) =
       [''There is one God.'', ''Man fell.'']"
proof -
  have 1: "\<not> is_chapter_header (strip ''The Westminster Confession'')" by code_simp
  have 2: "\<not> is_chapter_header (strip ''Some preface text.'')" by code_simp
  have "\<forall>l\<in>set [''The Westminster Confession'', ''Some preface text.'']. \<not> is_chapter_header (strip l)"
    using 1 2 by simp
  from front_matter_discarded[OF this, of ex_gap]
  have 3: "parse_westminster ([''The Westminster Confession'', ''Some preface text.''] @ ex_gap) =
       parse_westminster ex_gap"
    by blast
  have 4: "map content (parse_westminster ex_gap) = [''There is one God.'', ''Man fell.'']"
    by code_simp
  show ?thesis using 1 2 3 4 by simp
qed

subsection \<open>The header of a section\<close>

text \<open>The state of the loop at index \<open>n + 1\<close> is one iteration after the state at index
  \<open>n\<close>; at the length of the input, and at any index behind it, it is the final state.\<close>

lemma run_upto_Suc:
  "n < length lines \<Longrightarrow>
   run_upto (Suc n) st lines = step (run_upto n st lines) (lines ! n) (drop (Suc n) lines)"
proof (induction n arbitrary: st lines)
  case 0 then show ?case by (cases lines) auto
next
  case (Suc n)
  then obtain l ls where l: "lines = l # ls" by (cases lines) auto
  with Suc.prems have "n < length ls" by simp
  from Suc.IH[OF this, of "step st l ls"] show ?case by (simp add: l)
qed

lemma run_upto_length: "run_upto (length lines) st lines = run st lines"
  by (induction lines arbitrary: st) auto

lemma run_upto_ge: "length lines \<le> i \<Longrightarrow> run_upto i st lines = run st lines"
proof (induction lines arbitrary: i st)
  case Nil then show ?case by (cases i) auto
next
  case (Cons l ls) then show ?case by (cases i) auto
qed


text \<open>The loop keeps the invariant \<open>tracks\<close>.\<close>

lemma count_headers_take_Suc:
  "n < length lines \<Longrightarrow> count_headers (take (Suc n) lines) =
     count_headers (take n lines) + (if is_chapter_header (strip (lines ! n)) then 1 else 0)"
  by (simp add: count_headers_def take_Suc_conv_app_nth)

lemma save_chapter_tracks:
  assumes "tracks lines n st"
  shows "\<forall>s\<in>set (save_chapter st). \<exists>i. section_of_header lines i s"
proof
  fix s assume s: "s \<in> set (save_chapter st)"
  show "\<exists>i. section_of_header lines i s"
  proof (cases "s \<in> set (sections st)")
    case True with assms show ?thesis by (auto simp: tracks_def)
  next
    case False
    with s obtain ch t where c: "current_chapter st = Some ch" "current_title st = Some t"
      and s': "s = \<lparr>chapter_str = str ch, title = clean_title t,
         content = clean_content (current_content st) (Some t), topics = get_topics t\<rparr>"
      by (auto simp: save_chapter_def Let_def split: option.splits if_splits)
    from assms c obtain j where "j < length lines" "is_chapter_header (strip (lines ! j))"
      "ch = count_headers (take (Suc j) lines)" "raw_title lines j = Some t"
      by (auto simp: tracks_def)
    then have "section_of_header lines j s"
      by (simp add: section_of_header_def s')
    then show ?thesis ..
  qed
qed

lemma tracks_step:
  assumes "n < length lines" "tracks lines n st"
  shows "tracks lines (Suc n) (step st (lines ! n) (drop (Suc n) lines))"
proof (cases "is_chapter_header (strip (lines ! n))")
  case True
  have "raw_title lines n = (if title_scan [] (take 9 (drop (Suc n) lines)) \<noteq> []
      then Some (join (title_scan [] (take 9 (drop (Suc n) lines)))) else None)"
    by (simp add: raw_title_def Let_def)
  with True assms save_chapter_tracks[OF assms(2)] show ?thesis
    by (auto simp: tracks_def step_def Let_def count_headers_take_Suc)
next
  case False
  with assms have "\<exists>c. step st (lines ! n) (drop (Suc n) lines) = st\<lparr>current_content := c\<rparr>"
    by (auto simp: step_def Let_def intro: exI[of _ "current_content st"])
  then obtain c where "step st (lines ! n) (drop (Suc n) lines) = st\<lparr>current_content := c\<rparr>" ..
  with False assms show ?thesis
    by (auto simp: tracks_def count_headers_take_Suc split: option.splits intro: less_SucI)
qed

lemma tracks_run_upto: "n \<le> length lines \<Longrightarrow> tracks lines n (run_upto n init_state lines)"
proof (induction n)
  case 0 show ?case by (simp add: tracks_def init_state_def count_headers_def)
next
  case (Suc n)
  then show ?case using tracks_step[of n lines "run_upto n init_state lines"]
    by (simp add: run_upto_Suc del: run_upto.simps)
qed

lemma tracks_run: "tracks lines (length lines) (run init_state lines)"
  using tracks_run_upto[of "length lines" lines] by (simp add: run_upto_length)

lemma parse_sections_of_headers:
  "\<forall>s\<in>set (parse_westminster lines). \<exists>i. section_of_header lines i s"
  unfolding parse_westminster_def by (rule save_chapter_tracks[OF tracks_run])

lemma chapter_num_run_upto:
  "chapter_num (run_upto i init_state lines) = count_headers (take i lines)"
proof (cases "i \<le> length lines")
  case True
  then show ?thesis using tracks_run_upto[of i lines] by (simp add: tracks_def)
next
  case False
  then show ?thesis using tracks_run[of lines] by (simp add: run_upto_ge tracks_def)
qed

lemma parse_sections_explicit:
  "\<forall>s\<in>set (parse_westminster lines). \<exists>i t. i < length lines \<and>
      is_chapter_header (strip (lines ! i)) \<and>
      chapter_str s = str (count_headers (take (Suc i) lines)) \<and>
      raw_title lines i = Some t \<and> title s = clean_title t \<and> topics s = get_topics t"
proof
  fix s assume "s \<in> set (parse_westminster lines)"
  then obtain i where "section_of_header lines i s"
    using parse_sections_of_headers by blast
  then show "\<exists>i t. i < length lines \<and>
      is_chapter_header (strip (lines ! i)) \<and>
      chapter_str s = str (count_headers (take (Suc i) lines)) \<and>
      raw_title lines i = Some t \<and> title s = clean_title t \<and> topics s = get_topics t"
    by (auto simp: section_of_header_def split: option.splits)
qed


subsection \<open>Chapter numbers\<close>

lemma of_char_digit: "d < 10 \<Longrightarrow> (of_char (char_of (48 + d :: nat)) :: nat) = 48 + d"
  by (simp add: of_char_of)

lemma int_of_str_snoc: "int_of_str (s @ [c]) = 10 * int_of_str s + (of_char c - 48)"
  by (simp add: int_of_str_def)

lemma int_of_str_str: "int_of_str (str n) = n"
proof (induction n rule: str.induct)
  case (1 n)
  show ?case
  proof (cases "n < 10")
    case True
    then show ?thesis
      by (subst str.simps) (simp add: int_of_str_def of_char_digit)
  next
    case False
    then have "int_of_str (str n) =
        10 * int_of_str (str (n div 10)) + (of_char (char_of (48 + n mod 10)) - 48)"
      by (subst str.simps) (simp add: int_of_str_snoc)
    also have "\<dots> = 10 * (n div 10) + n mod 10"
      using 1[OF False] of_char_digit[of "n mod 10"] by simp
    finally show ?thesis by simp
  qed
qed

lemma increasing_mono: "increasing_from_1 secs b \<Longrightarrow> b \<le> b' \<Longrightarrow> increasing_from_1 secs b'"
  unfolding increasing_from_1_def by fastforce

lemma increasing_snoc:
  assumes "increasing_from_1 secs b" "1 \<le> b" "chapter_str s = str b"
  shows "increasing_from_1 (secs @ [s]) (Suc b)"
proof -
  from assms(1) obtain ns where ns: "map chapter_str secs = map str ns" "sorted_wrt (<) ns"
      "\<forall>n\<in>set ns. 1 \<le> n \<and> n < b"
    unfolding increasing_from_1_def by blast
  have "map chapter_str (secs @ [s]) = map str (ns @ [b])" using ns(1) assms(3) by simp
  moreover have "sorted_wrt (<) (ns @ [b])" using ns(2,3) by (simp add: sorted_wrt_append)
  moreover have "\<forall>n\<in>set (ns @ [b]). 1 \<le> n \<and> n < Suc b" using ns(3) assms(2) by auto
  ultimately show ?thesis unfolding increasing_from_1_def by blast
qed

lemma save_chapter_numbered:
  assumes "numbered st"
  shows "increasing_from_1 (save_chapter st) (Suc (chapter_num st))"
proof -
  consider "save_chapter st = sections st"
    | ch s where "current_chapter st = Some ch" "save_chapter st = sections st @ [s]"
        "chapter_str s = str ch"
    using save_chapter_cases[of st] by force
  then show ?thesis
  proof cases
    case 1
    with assms show ?thesis
      by (auto simp: numbered_def split: option.splits intro: increasing_mono)
  next
    case 2
    with assms show ?thesis
      by (auto simp: numbered_def intro: increasing_snoc)
  qed
qed

lemma step_numbered: "numbered st \<Longrightarrow> numbered (step st l rest)"
  using save_chapter_numbered[of st]
  by (auto simp: step_def Let_def numbered_def split: option.splits)

lemma parse_increasing: "\<exists>b. increasing_from_1 (parse_westminster lines) b"
proof -
  have "numbered init_state"
    by (simp add: numbered_def init_state_def increasing_from_1_def)
  then have "numbered (run init_state lines)"
    by (rule run_invariant) (rule step_numbered)
  then show ?thesis
    unfolding parse_westminster_def using save_chapter_numbered by blast
qed

text \<open>
  Claim C4. The chapter fields of the output, read as integers in the order of the
  output, increase strictly and are at least 1 (each field is the decimal form of its
  number). They need not be contiguous, because the counter moves at every header,
  whether or not the chapter is emitted: when the loop is at index \<open>i\<close> the counter is the
  number of headers among the first \<open>i\<close> lines, and the chapter field of a section is the
  rank, among all the headers of the file, of the header of its chapter (the header behind
  which its raw title is found). A file whose second chapter has a title and no content,
  and a file whose second chapter has content and no title, both give the chapters 1 and 3.
\<close>

theorem chapter_numbers_increase:
  "(let ns = map (\<lambda>s. int_of_str (chapter_str s)) (parse_westminster lines)
    in map chapter_str (parse_westminster lines) = map str ns \<and> sorted_wrt (<) ns \<and>
       (\<forall>n\<in>set ns. 1 \<le> n))
   \<and> (\<forall>i. chapter_num (run_upto i init_state lines) = count_headers (take i lines))
   \<and> (\<forall>s\<in>set (parse_westminster lines). \<exists>i t. i < length lines \<and>
         is_chapter_header (strip (lines ! i)) \<and> raw_title lines i = Some t \<and>
         title s = clean_title t \<and>
         chapter_str s = str (count_headers (take (Suc i) lines)))
   \<and> map chapter_str (parse_westminster ex_gap) = [''1'', ''3'']
   \<and> map chapter_str (parse_westminster ex_untitled) = [''1'', ''3'']"
proof (intro conjI)
  obtain b ns where ns: "map chapter_str (parse_westminster lines) = map str ns"
      "sorted_wrt (<) ns" "\<forall>n\<in>set ns. 1 \<le> n \<and> n < b"
    using parse_increasing[of lines] unfolding increasing_from_1_def by blast
  have "map (\<lambda>s. int_of_str (chapter_str s)) (parse_westminster lines) =
      map int_of_str (map chapter_str (parse_westminster lines))"
    by simp
  also have "\<dots> = ns" unfolding ns(1) by (simp add: int_of_str_str comp_def)
  finally show "let ns = map (\<lambda>s. int_of_str (chapter_str s)) (parse_westminster lines)
    in map chapter_str (parse_westminster lines) = map str ns \<and> sorted_wrt (<) ns \<and>
       (\<forall>n\<in>set ns. 1 \<le> n)"
    using ns by (simp add: Let_def)
next
  show "\<forall>i. chapter_num (run_upto i init_state lines) = count_headers (take i lines)"
    by (simp add: chapter_num_run_upto)
next
  show "\<forall>s\<in>set (parse_westminster lines). \<exists>i t. i < length lines \<and>
         is_chapter_header (strip (lines ! i)) \<and> raw_title lines i = Some t \<and>
         title s = clean_title t \<and>
         chapter_str s = str (count_headers (take (Suc i) lines))"
    using parse_sections_explicit[of lines] by blast
next
  show "map chapter_str (parse_westminster ex_gap) = [''1'', ''3'']"
    by code_simp
next
  show "map chapter_str (parse_westminster ex_untitled) = [''1'', ''3'']"
    by code_simp
qed

theorem chapter_numbers_increase_witness:
  "map (\<lambda>s. int_of_str (chapter_str s)) (parse_westminster ex_empty) = [1]
   \<and> sorted_wrt (<) (map (\<lambda>s. int_of_str (chapter_str s)) (parse_westminster ex_empty))
   \<and> 1 \<le> hd (map (\<lambda>s. int_of_str (chapter_str s)) (parse_westminster ex_empty))
   \<and> chapter_num (run_upto 5 init_state ex_untitled) = 2
   \<and> chapter_num (run_upto 15 init_state ex_untitled) = 3
   \<and> (\<exists>i t. i < length ex_empty \<and> is_chapter_header (strip (ex_empty ! i)) \<and>
         raw_title ex_empty i = Some t \<and>
         title (hd (parse_westminster ex_empty)) = clean_title t \<and>
         chapter_str (hd (parse_westminster ex_empty)) = str (count_headers (take (Suc i) ex_empty)))"
proof -
  have 1: "map (\<lambda>s. int_of_str (chapter_str s)) (parse_westminster ex_empty) = [1]"
    by code_simp
  have 2: "sorted_wrt (<) (map (\<lambda>s. int_of_str (chapter_str s)) (parse_westminster ex_empty))"
    using chapter_numbers_increase[of ex_empty] by (simp only: Let_def)
  have "hd (map (\<lambda>s. int_of_str (chapter_str s)) (parse_westminster ex_empty))
      \<in> set (map (\<lambda>s. int_of_str (chapter_str s)) (parse_westminster ex_empty))"
    unfolding 1 by simp
  moreover have "\<forall>n\<in>set (map (\<lambda>s. int_of_str (chapter_str s)) (parse_westminster ex_empty)). 1 \<le> n"
    using chapter_numbers_increase[of ex_empty] unfolding Let_def by blast
  ultimately have 3: "1 \<le> hd (map (\<lambda>s. int_of_str (chapter_str s)) (parse_westminster ex_empty))"
    by blast
  have c5: "count_headers (take 5 ex_untitled) = 2" by code_simp
  have c15: "count_headers (take 15 ex_untitled) = 3" by code_simp
  have 4: "chapter_num (run_upto 5 init_state ex_untitled) = 2"
    using chapter_numbers_increase[of ex_untitled] c5 by simp
  have 5: "chapter_num (run_upto 15 init_state ex_untitled) = 3"
    using chapter_numbers_increase[of ex_untitled] c15 by simp
  have "parse_westminster ex_empty \<noteq> []" using 1 by auto
  then have "hd (parse_westminster ex_empty) \<in> set (parse_westminster ex_empty)" by simp
  with chapter_numbers_increase[of ex_empty]
  have 6: "\<exists>i t. i < length ex_empty \<and> is_chapter_header (strip (ex_empty ! i)) \<and>
         raw_title ex_empty i = Some t \<and>
         title (hd (parse_westminster ex_empty)) = clean_title t \<and>
         chapter_str (hd (parse_westminster ex_empty)) = str (count_headers (take (Suc i) ex_empty))"
    by blast
  show ?thesis using 1 2 3 4 5 6 by blast
qed

subsection \<open>Titles\<close>

lemma startswith_iff: "startswith s p \<longleftrightarrow> (\<exists>r. s = p @ r)"
  unfolding startswith_def by (metis append_eq_conv_conj append_take_drop_id)

lemma join_Cons: "\<exists>r. join (x # xs) = x @ r"
  by (cases xs) auto

lemma title_scan_hd:
  "(parts \<noteq> [] \<longrightarrow> (\<exists>r. title_scan parts ls = hd parts # r)) \<and>
   (parts = [] \<longrightarrow> title_scan parts ls = [] \<or> startswith (hd (title_scan parts ls)) ''Of '')"
proof (induction ls arbitrary: parts)
  case Nil
  then show ?case by (cases parts) auto
next
  case (Cons l ls)
  show ?case
  proof (cases parts)
    case Nil
    then show ?thesis
      using Cons.IH[of "[strip l]"] Cons.IH[of "[]"] by (auto simp: Let_def)
  next
    case (Cons p ps)
    then show ?thesis
      using Cons.IH[of "parts @ [strip l]"] by (auto simp: Let_def)
  qed
qed

lemma title_scan_Of:
  "title_scan [] ls \<noteq> [] \<Longrightarrow> startswith (join (title_scan [] ls)) ''Of ''"
proof -
  assume a: "title_scan [] ls \<noteq> []"
  then obtain p ps where p: "title_scan [] ls = p # ps" by (cases "title_scan [] ls") auto
  with title_scan_hd[of "[]" ls] have "startswith p ''Of ''" by auto
  then obtain r where "p = ''Of '' @ r" unfolding startswith_iff by blast
  moreover obtain r' where "join (p # ps) = p @ r'" using join_Cons by blast
  ultimately show ?thesis unfolding p startswith_iff by simp
qed

lemma strip_Of: "strip (''Of '' @ r) = ''Of'' \<or> startswith (strip (''Of '' @ r)) ''Of ''"
proof -
  have s: "is_space CHR '' ''" "\<not> is_space CHR ''O''" "\<not> is_space CHR ''f''"
    by (simp_all add: is_space_def)
  have 1: "dropWhile is_space (''Of '' @ r) = ''Of '' @ r" using s by simp
  have 2: "rev (''Of '' @ r) = rev r @ '' fO''" by simp
  show ?thesis
  proof (cases "\<forall>c\<in>set (rev r). is_space c")
    case True
    then have "dropWhile is_space (rev r @ '' fO'') = ''fO''"
      using s by (simp add: dropWhile_append)
    then have "strip (''Of '' @ r) = ''Of''"
      unfolding strip_def 1 2 by simp
    then show ?thesis by simp
  next
    case False
    then have "dropWhile is_space (rev r @ '' fO'') = dropWhile is_space (rev r) @ '' fO''"
      by (simp add: dropWhile_append)
    then have "strip (''Of '' @ r) = ''Of '' @ rev (dropWhile is_space (rev r))"
      unfolding strip_def 1 2 by simp
    then show ?thesis unfolding startswith_iff by blast
  qed
qed

lemma clean_title_Of:
  assumes "startswith t ''Of ''"
  shows "clean_title t = ''Of'' \<or> startswith (clean_title t) ''Of ''"
proof -
  from assms obtain r where t: "t = ''Of '' @ r" unfolding startswith_iff by blast
  have n: "CHR ''['' \<notin> set ''Of ''" by simp
  have "clean_title t = strip (''Of '' @ re_sub m_upcusa (re_sub m_pcus (re_sub m_upcusa_pcus (re_sub m_pcus_upcusa r))))"
    unfolding clean_title_def Let_def t
    by (simp only: re_sub_skip[OF bracket_pcus_upcusa n] re_sub_skip[OF bracket_upcusa_pcus n]
          re_sub_skip[OF bracket_pcus n] re_sub_skip[OF bracket_upcusa n])
  then show ?thesis using strip_Of by simp
qed

lemma save_chapter_titled:
  assumes "titled st"
  shows "\<forall>s\<in>set (save_chapter st). title s = ''Of'' \<or> startswith (title s) ''Of ''"
proof -
  consider "save_chapter st = sections st"
    | t s where "current_title st = Some t" "save_chapter st = sections st @ [s]"
        "title s = clean_title t"
    using save_chapter_cases[of st] by force
  then show ?thesis
  proof cases
    case 1
    with assms show ?thesis by (simp add: titled_def)
  next
    case 2
    with assms have "startswith t ''Of ''" by (simp add: titled_def)
    then have "title s = ''Of'' \<or> startswith (title s) ''Of ''"
      unfolding 2(3) by (rule clean_title_Of)
    with assms 2(2) show ?thesis by (auto simp: titled_def)
  qed
qed

lemma step_titled: "titled st \<Longrightarrow> titled (step st l rest)"
  using save_chapter_titled[of st] title_scan_Of[of "take 9 rest"]
  by (auto simp: step_def Let_def titled_def)

text \<open>
  Claim C10, as amended. Every title of the output starts with the two letters of the
  lead-in word: it is either exactly \<open>Of\<close> or starts with \<open>Of\<close> and a space. The
  substitutions keep the prefix; the final trim removes the space when only whitespace
  follows it.
\<close>

theorem titles_start_with_Of:
  "\<forall>s\<in>set (parse_westminster lines). title s = ''Of'' \<or> startswith (title s) ''Of ''"
proof -
  have "titled init_state" by (simp add: titled_def init_state_def)
  then have "titled (run init_state lines)"
    by (rule run_invariant) (rule step_titled)
  then show ?thesis unfolding parse_westminster_def by (rule save_chapter_titled)
qed

theorem titles_start_with_Of_witness:
  "map title (parse_westminster ex_gap) = [''Of God'', ''Of Man'']
   \<and> (title (hd (parse_westminster ex_gap)) = ''Of''
      \<or> startswith (title (hd (parse_westminster ex_gap))) ''Of '')"
proof -
  have 1: "map title (parse_westminster ex_gap) = [''Of God'', ''Of Man'']"
    by code_simp
  then have "hd (parse_westminster ex_gap) \<in> set (parse_westminster ex_gap)"
    by (cases "parse_westminster ex_gap") auto
  with titles_start_with_Of[of ex_gap] 1 show ?thesis by blast
qed

text \<open>The claim as stated fails: the title of the only section of this file is \<open>Of\<close>,
  which does not start with \<open>Of\<close> and a space.\<close>

theorem title_Of_counterexample:
  "map title (parse_westminster ex_of) = [''Of''] \<and> \<not> startswith ''Of'' ''Of ''"
  by code_simp

subsection \<open>Topics\<close>

lemma topics_loop_eq:
  "topics_loop low kws acc =
     acc @ concat (map snd (filter (\<lambda>(keyword, topic_list). contains low keyword) kws))"
  by (induction kws arbitrary: acc) auto

lemma get_topics_eq:
  "get_topics t =
     (let hits = concat (map snd (filter (\<lambda>(keyword, topic_list). contains (lower t) keyword)
                   chapter_keywords))
      in if hits = [] then [''theology''] else hits)"
  by (simp add: get_topics_def Let_def topics_loop_eq del: concat_eq_Nil_conv)

text \<open>
  Claim C3, as amended. The topics of every section of the output are computed from the
  raw title of its chapter, not from the resolved title: the section comes from a header
  of the input (the one whose rank is its chapter field), the raw title is the join of the
  title lines that the lookahead finds behind that header, the topics are those of the raw
  title and the title is its resolved form. The computation lowers the title, appends
  the topics of every key phrase of the table that occurs in it, in the order of the
  table and with duplicates, and gives \<open>theology\<close> alone when no key phrase occurs.
\<close>

theorem topics_from_raw_title:
  "(\<forall>s\<in>set (parse_westminster lines). \<exists>i t. i < length lines \<and>
       is_chapter_header (strip (lines ! i)) \<and>
       chapter_str s = str (count_headers (take (Suc i) lines)) \<and>
       raw_title lines i = Some t \<and> title s = clean_title t \<and> topics s = get_topics t)
   \<and> (\<forall>t. get_topics t =
         (let hits = concat (map snd (filter (\<lambda>(keyword, topic_list). contains (lower t) keyword)
                       chapter_keywords))
          in if hits = [] then [''theology''] else hits))
   \<and> (\<forall>t. (\<forall>keyword\<in>set (map fst chapter_keywords). \<not> contains (lower t) keyword) \<longrightarrow>
         get_topics t = [''theology''])"
proof (intro conjI allI impI)
  show "\<forall>s\<in>set (parse_westminster lines). \<exists>i t. i < length lines \<and>
       is_chapter_header (strip (lines ! i)) \<and>
       chapter_str s = str (count_headers (take (Suc i) lines)) \<and>
       raw_title lines i = Some t \<and> title s = clean_title t \<and> topics s = get_topics t"
    by (rule parse_sections_explicit)
next
  fix t
  show "get_topics t =
         (let hits = concat (map snd (filter (\<lambda>(keyword, topic_list). contains (lower t) keyword)
                       chapter_keywords))
          in if hits = [] then [''theology''] else hits)"
    by (rule get_topics_eq)
next
  fix t
  assume "\<forall>keyword\<in>set (map fst chapter_keywords). \<not> contains (lower t) keyword"
  then have "filter (\<lambda>(keyword, topic_list). contains (lower t) keyword) chapter_keywords = []"
    by (auto simp: filter_empty_conv)
  then show "get_topics t = [''theology'']"
    by (simp add: get_topics_eq)
qed

theorem topics_from_raw_title_witness:
  "raw_title ex_variant 0 = Some ''Of [PCUS God] [UPCUSA Man]''
   \<and> map topics (parse_westminster ex_variant) = [get_topics ''Of [PCUS God] [UPCUSA Man]'']
   \<and> map title (parse_westminster ex_variant) = [clean_title ''Of [PCUS God] [UPCUSA Man]'']
   \<and> get_topics ''Of Man'' = [''theology'']"
proof -
  have r: "raw_title ex_variant 0 = Some ''Of [PCUS God] [UPCUSA Man]''"
    by code_simp
  have h: "map (\<lambda>l. is_chapter_header (strip l)) ex_variant = [True, False, False, False]"
    by code_simp
  have n: "length (parse_westminster ex_variant) = 1"
    by code_simp
  then obtain s where p: "parse_westminster ex_variant = [s]"
    by (cases "parse_westminster ex_variant") auto
  with topics_from_raw_title[of ex_variant] obtain i t where
    i: "i < length ex_variant" "is_chapter_header (strip (ex_variant ! i))"
      "raw_title ex_variant i = Some t" "title s = clean_title t" "topics s = get_topics t"
    by auto
  have l: "length ex_variant = 4" using arg_cong[OF h, of length] by simp
  have "\<forall>j<4. (map (\<lambda>l. is_chapter_header (strip l)) ex_variant) ! j = is_chapter_header (strip (ex_variant ! j))"
    using l by simp
  then have "\<forall>j<4. is_chapter_header (strip (ex_variant ! j)) \<longrightarrow> j = 0"
    unfolding h by (auto simp: less_Suc_eq numeral_eq_Suc)
  with i l have "i = 0" by simp
  with i r have t: "t = ''Of [PCUS God] [UPCUSA Man]''" by simp
  have 1: "map topics (parse_westminster ex_variant) = [get_topics ''Of [PCUS God] [UPCUSA Man]'']"
    using p i t by simp
  have 2: "map title (parse_westminster ex_variant) = [clean_title ''Of [PCUS God] [UPCUSA Man]'']"
    using p i t by simp
  have "list_all (\<lambda>keyword. \<not> contains (lower ''Of Man'') keyword) (map fst chapter_keywords)"
    by code_simp
  then have "\<forall>keyword\<in>set (map fst chapter_keywords). \<not> contains (lower ''Of Man'') keyword"
    by (simp only: list_all_iff)
  with topics_from_raw_title[of ex_variant] have 3: "get_topics ''Of Man'' = [''theology'']"
    by blast
  show ?thesis using r 1 2 3 by blast
qed

text \<open>The claim as stated fails: the resolved title of the only section of this file is
  \<open>Of Man\<close>, whose topics would be \<open>theology\<close>, and the section has the topics of the key
  phrase \<open>god\<close> of the discarded variant.\<close>

theorem topics_resolved_title_counterexample:
  "map title (parse_westminster ex_variant) = [''Of Man'']
   \<and> map topics (parse_westminster ex_variant) = [[''god'', ''trinity'', ''attributes'']]
   \<and> get_topics ''Of Man'' = [''theology'']"
  by code_simp


section \<open>Variant annotations\<close>

lemma tag_group_other:
  "tag_group ''PCUS'' (CHR ''['' # CHR ''U'' # r) = None"
  "tag_group ''UPCUSA'' (CHR ''['' # CHR ''P'' # r) = None"
  by (simp_all add: tag_group_def lit_def startswith_def)

lemma m_refcode_no_digit: "\<not> is_digit c \<Longrightarrow> m_refcode (CHR ''['' # c # r) = None"
  by (simp add: m_refcode_def lit_def startswith_def run1_def)

lemma pair_PU_match:
  assumes "x \<noteq> []" "CHR '']'' \<notin> set x" "y \<noteq> []" "CHR '']'' \<notin> set y"
  shows "m_pcus_upcusa (''[PCUS '' @ x @ ''] [UPCUSA '' @ y @ '']'' @ r) = Some (y, r)"
proof -
  have "tag_group ''PCUS'' (''['' @ ''PCUS'' @ '' '' @ x @ '']'' @ ('' [UPCUSA '' @ y @ '']'' @ r))
      = Some (x, '' [UPCUSA '' @ y @ '']'' @ r)"
    using assms by (intro tag_group_append)
  moreover have "tag_group ''UPCUSA'' (''['' @ ''UPCUSA'' @ '' '' @ y @ '']'' @ r) = Some (y, r)"
    using assms by (intro tag_group_append)
  ultimately show ?thesis
    by (simp add: m_pcus_upcusa_def lit_def startswith_def)
qed

lemma pair_UP_match:
  assumes "x \<noteq> []" "CHR '']'' \<notin> set x" "y \<noteq> []" "CHR '']'' \<notin> set y"
  shows "m_upcusa_pcus (''[UPCUSA '' @ y @ ''] [PCUS '' @ x @ '']'' @ r) = Some (y, r)"
proof -
  have "tag_group ''UPCUSA'' (''['' @ ''UPCUSA'' @ '' '' @ y @ '']'' @ ('' [PCUS '' @ x @ '']'' @ r))
      = Some (y, '' [PCUS '' @ x @ '']'' @ r)"
    using assms by (intro tag_group_append)
  moreover have "tag_group ''PCUS'' (''['' @ ''PCUS'' @ '' '' @ x @ '']'' @ r) = Some (x, r)"
    using assms by (intro tag_group_append)
  ultimately show ?thesis
    by (simp add: m_upcusa_pcus_def lit_def startswith_def)
qed

lemma pair_other:
  "m_pcus_upcusa (CHR ''['' # CHR ''U'' # r) = None"
  "m_upcusa_pcus (CHR ''['' # CHR ''P'' # r) = None"
  by (simp_all add: m_pcus_upcusa_def m_upcusa_pcus_def tag_group_other)

lemma lone_match:
  assumes "x \<noteq> []" "CHR '']'' \<notin> set x"
  shows "m_pcus (''[PCUS '' @ x @ '']'' @ r) = Some (x, r)"
    and "m_upcusa (''[UPCUSA '' @ x @ '']'' @ r) = Some (x, r)"
  using tag_group_append[OF assms, of "''PCUS''" r] tag_group_append[OF assms, of "''UPCUSA''" r]
  by (simp_all add: m_pcus_def m_upcusa_def)

lemma lone_other:
  "m_pcus (CHR ''['' # CHR ''U'' # r) = None"
  "m_upcusa (CHR ''['' # CHR ''P'' # r) = None"
  by (simp_all add: m_pcus_def m_upcusa_def tag_group_other)

text \<open>Substitution at the first opening bracket of a text, and at the first two.\<close>

lemma re_sub_at_match:
  assumes "bracket_matcher m" "CHR ''['' \<notin> set pre" "m s = Some (rep, rest)"
  shows "re_sub m (pre @ s) = pre @ rep @ re_sub m rest"
  using assms by (simp add: re_sub_skip re_sub_match)

lemma re_sub_at_none:
  assumes "bracket_matcher m" "CHR ''['' \<notin> set pre" "m (CHR ''['' # a @ r) = None"
    "CHR ''['' \<notin> set a"
  shows "re_sub m (pre @ CHR ''['' # a @ r) = pre @ CHR ''['' # a @ re_sub m r"
  using assms by (simp add: re_sub_skip)

lemma re_sub_at_none2:
  assumes "bracket_matcher m" "CHR ''['' \<notin> set pre"
    "m (CHR ''['' # a @ CHR ''['' # b @ r) = None" "m (CHR ''['' # b @ r) = None"
    "CHR ''['' \<notin> set a" "CHR ''['' \<notin> set b"
  shows "re_sub m (pre @ CHR ''['' # a @ CHR ''['' # b @ r) =
     pre @ CHR ''['' # a @ CHR ''['' # b @ re_sub m r"
  using assms by (simp add: re_sub_skip)

lemma subst_plain:
  assumes "CHR ''['' \<notin> set s"
  shows "re_sub m_refcode s = s" "re_sub m_pcus_upcusa s = s" "re_sub m_upcusa_pcus s = s"
    "re_sub m_pcus s = s" "re_sub m_upcusa s = s"
  using assms
  by (simp_all add: re_sub_plain bracket_refcode bracket_pcus_upcusa bracket_upcusa_pcus
        bracket_pcus bracket_upcusa)

lemma clean_content_subs_cong:
  assumes "re_sub m_upcusa (re_sub m_pcus (re_sub m_upcusa_pcus (re_sub m_pcus_upcusa
             (re_sub m_refcode (join ls))))) =
           re_sub m_upcusa (re_sub m_pcus (re_sub m_upcusa_pcus (re_sub m_pcus_upcusa
             (re_sub m_refcode (join ls')))))"
  shows "clean_content ls t = clean_content ls' t"
  unfolding clean_content_def Let_def assms by (rule refl)

text \<open>The four substitutions of the variants on a text that starts, after text without
  opening bracket, with one of the four annotations: the kept text takes the place of the
  annotation and the substitutions go on behind it.\<close>

lemma clean_title_resolve: "clean_title s = strip (resolve_variants s)"
  by (simp add: clean_title_def resolve_variants_def)

lemma clean_content_resolve_cong:
  assumes "resolve_variants (re_sub m_refcode (join ls)) =
           resolve_variants (re_sub m_refcode (join ls'))"
  shows "clean_content ls t = clean_content ls' t"
  using assms unfolding resolve_variants_def by (rule clean_content_subs_cong)

lemma resolve_plain_prefix:
  assumes "CHR ''['' \<notin> set p"
  shows "resolve_variants (p @ s) = p @ resolve_variants s"
  using assms unfolding resolve_variants_def
  by (simp add: re_sub_skip bracket_pcus_upcusa bracket_upcusa_pcus bracket_pcus bracket_upcusa)

lemma resolve_pair_PU:
  assumes "CHR ''['' \<notin> set pre" "x \<noteq> []" "CHR '']'' \<notin> set x" "plain y" "y \<noteq> []"
  shows "resolve_variants (pre @ ''[PCUS '' @ x @ ''] [UPCUSA '' @ y @ '']'' @ post) =
     pre @ y @ resolve_variants post"
proof -
  have y: "CHR '']'' \<notin> set y" "CHR ''['' \<notin> set (pre @ y)" using assms by (simp_all add: plain_def)
  have 1: "re_sub m_pcus_upcusa (pre @ ''[PCUS '' @ x @ ''] [UPCUSA '' @ y @ '']'' @ post) =
      pre @ y @ re_sub m_pcus_upcusa post"
    by (rule re_sub_at_match[OF bracket_pcus_upcusa assms(1) pair_PU_match[OF assms(2,3,5) y(1)]])
  have 2: "re_sub m_upcusa_pcus (pre @ y @ s) = pre @ y @ re_sub m_upcusa_pcus s" for s
    using re_sub_skip[OF bracket_upcusa_pcus y(2), of s] by simp
  have 3: "re_sub m_pcus (pre @ y @ s) = pre @ y @ re_sub m_pcus s" for s
    using re_sub_skip[OF bracket_pcus y(2), of s] by simp
  have 4: "re_sub m_upcusa (pre @ y @ s) = pre @ y @ re_sub m_upcusa s" for s
    using re_sub_skip[OF bracket_upcusa y(2), of s] by simp
  show ?thesis unfolding resolve_variants_def by (simp only: 1 2 3 4)
qed

lemma resolve_pair_UP:
  assumes "CHR ''['' \<notin> set pre" "plain x" "x \<noteq> []" "plain y" "y \<noteq> []"
    "m_pcus_upcusa (''[PCUS '' @ x @ '']'' @ post) = None"
  shows "resolve_variants (pre @ ''[UPCUSA '' @ y @ ''] [PCUS '' @ x @ '']'' @ post) =
     pre @ y @ resolve_variants post"
proof -
  have y: "CHR '']'' \<notin> set y" "CHR ''['' \<notin> set (pre @ y)" and x: "CHR '']'' \<notin> set x"
    using assms by (simp_all add: plain_def)
  have "re_sub m_pcus_upcusa (pre @ CHR ''['' # (''UPCUSA '' @ y @ ''] '') @ CHR ''['' #
        (''PCUS '' @ x @ '']'') @ post) =
      pre @ CHR ''['' # (''UPCUSA '' @ y @ ''] '') @ CHR ''['' # (''PCUS '' @ x @ '']'') @
        re_sub m_pcus_upcusa post"
    using assms pair_other(1)
    by (intro re_sub_at_none2[OF bracket_pcus_upcusa]) (simp_all add: plain_def)
  then have 1: "re_sub m_pcus_upcusa (pre @ ''[UPCUSA '' @ y @ ''] [PCUS '' @ x @ '']'' @ post) =
      pre @ ''[UPCUSA '' @ y @ ''] [PCUS '' @ x @ '']'' @ re_sub m_pcus_upcusa post"
    by simp
  have 2: "re_sub m_upcusa_pcus (pre @ ''[UPCUSA '' @ y @ ''] [PCUS '' @ x @ '']'' @ s) =
      pre @ y @ re_sub m_upcusa_pcus s" for s
    by (rule re_sub_at_match[OF bracket_upcusa_pcus assms(1) pair_UP_match[OF assms(3) x assms(5) y(1)]])
  have 3: "re_sub m_pcus (pre @ y @ s) = pre @ y @ re_sub m_pcus s" for s
    using re_sub_skip[OF bracket_pcus y(2), of s] by simp
  have 4: "re_sub m_upcusa (pre @ y @ s) = pre @ y @ re_sub m_upcusa s" for s
    using re_sub_skip[OF bracket_upcusa y(2), of s] by simp
  show ?thesis unfolding resolve_variants_def by (simp only: 1 2 3 4)
qed

lemma resolve_lone_P:
  assumes "CHR ''['' \<notin> set pre" "plain x" "x \<noteq> []"
    "m_pcus_upcusa (''[PCUS '' @ x @ '']'' @ post) = None"
  shows "resolve_variants (pre @ ''[PCUS '' @ x @ '']'' @ post) = pre @ x @ resolve_variants post"
proof -
  have x: "CHR '']'' \<notin> set x" "CHR ''['' \<notin> set (pre @ x)" using assms by (simp_all add: plain_def)
  have "re_sub m_pcus_upcusa (pre @ CHR ''['' # (''PCUS '' @ x @ '']'') @ post) =
      pre @ CHR ''['' # (''PCUS '' @ x @ '']'') @ re_sub m_pcus_upcusa post"
    using assms by (intro re_sub_at_none[OF bracket_pcus_upcusa]) (simp_all add: plain_def)
  then have 1: "re_sub m_pcus_upcusa (pre @ ''[PCUS '' @ x @ '']'' @ post) =
      pre @ ''[PCUS '' @ x @ '']'' @ re_sub m_pcus_upcusa post"
    by simp
  have "re_sub m_upcusa_pcus (pre @ CHR ''['' # (''PCUS '' @ x @ '']'') @ s) =
      pre @ CHR ''['' # (''PCUS '' @ x @ '']'') @ re_sub m_upcusa_pcus s" for s
    using assms pair_other(2)
    by (intro re_sub_at_none[OF bracket_upcusa_pcus]) (simp_all add: plain_def)
  then have 2: "re_sub m_upcusa_pcus (pre @ ''[PCUS '' @ x @ '']'' @ s) =
      pre @ ''[PCUS '' @ x @ '']'' @ re_sub m_upcusa_pcus s" for s
    by simp
  have 3: "re_sub m_pcus (pre @ ''[PCUS '' @ x @ '']'' @ s) = pre @ x @ re_sub m_pcus s" for s
    by (rule re_sub_at_match[OF bracket_pcus assms(1) lone_match(1)[OF assms(3) x(1)]])
  have 4: "re_sub m_upcusa (pre @ x @ s) = pre @ x @ re_sub m_upcusa s" for s
    using re_sub_skip[OF bracket_upcusa x(2), of s] by simp
  show ?thesis unfolding resolve_variants_def by (simp only: 1 2 3 4)
qed

lemma resolve_lone_U:
  assumes "CHR ''['' \<notin> set pre" "plain y" "y \<noteq> []"
    "m_upcusa_pcus (''[UPCUSA '' @ y @ '']'' @ re_sub m_pcus_upcusa post) = None"
  shows "resolve_variants (pre @ ''[UPCUSA '' @ y @ '']'' @ post) = pre @ y @ resolve_variants post"
proof -
  have y: "CHR '']'' \<notin> set y" "CHR ''['' \<notin> set (pre @ y)" using assms by (simp_all add: plain_def)
  have "re_sub m_pcus_upcusa (pre @ CHR ''['' # (''UPCUSA '' @ y @ '']'') @ post) =
      pre @ CHR ''['' # (''UPCUSA '' @ y @ '']'') @ re_sub m_pcus_upcusa post"
    using assms pair_other(1)
    by (intro re_sub_at_none[OF bracket_pcus_upcusa]) (simp_all add: plain_def)
  then have 1: "re_sub m_pcus_upcusa (pre @ ''[UPCUSA '' @ y @ '']'' @ post) =
      pre @ ''[UPCUSA '' @ y @ '']'' @ re_sub m_pcus_upcusa post"
    by simp
  have "re_sub m_upcusa_pcus (pre @ CHR ''['' # (''UPCUSA '' @ y @ '']'') @ re_sub m_pcus_upcusa post) =
      pre @ CHR ''['' # (''UPCUSA '' @ y @ '']'') @ re_sub m_upcusa_pcus (re_sub m_pcus_upcusa post)"
    using assms
    by (intro re_sub_at_none[OF bracket_upcusa_pcus]) (simp_all add: plain_def)
  then have 2: "re_sub m_upcusa_pcus (pre @ ''[UPCUSA '' @ y @ '']'' @ re_sub m_pcus_upcusa post) =
      pre @ ''[UPCUSA '' @ y @ '']'' @ re_sub m_upcusa_pcus (re_sub m_pcus_upcusa post)"
    by simp
  have "re_sub m_pcus (pre @ CHR ''['' # (''UPCUSA '' @ y @ '']'') @ s) =
      pre @ CHR ''['' # (''UPCUSA '' @ y @ '']'') @ re_sub m_pcus s" for s
    using assms lone_other(1)
    by (intro re_sub_at_none[OF bracket_pcus]) (simp_all add: plain_def)
  then have 3: "re_sub m_pcus (pre @ ''[UPCUSA '' @ y @ '']'' @ s) =
      pre @ ''[UPCUSA '' @ y @ '']'' @ re_sub m_pcus s" for s
    by simp
  have 4: "re_sub m_upcusa (pre @ ''[UPCUSA '' @ y @ '']'' @ s) = pre @ y @ re_sub m_upcusa s" for s
    by (rule re_sub_at_match[OF bracket_upcusa assms(1) lone_match(2)[OF assms(3) y(1)]])
  show ?thesis unfolding resolve_variants_def by (simp only: 1 2 3 4)
qed

text \<open>The substitution of the reference codes leaves an annotation as it is.\<close>

lemma refcode_around:
  assumes "CHR ''['' \<notin> set (re_sub m_refcode pre)" "\<not> is_digit c" "CHR ''['' \<notin> set (c # a)"
  shows "re_sub m_refcode (pre @ CHR ''['' # c # a @ post) =
     re_sub m_refcode pre @ CHR ''['' # c # a @ re_sub m_refcode post"
proof -
  have "re_sub m_refcode (CHR ''['' # (c # a) @ post) = CHR ''['' # (c # a) @ re_sub m_refcode post"
    using re_sub_at_none[OF bracket_refcode, of "[]" "c # a" post] assms m_refcode_no_digit[of c]
    by simp
  then show ?thesis using refcode_prefix[OF assms(1)] by simp
qed

lemma refcode_kept:
  assumes "CHR ''['' \<notin> set (re_sub m_refcode pre)" "CHR ''['' \<notin> set k"
  shows "re_sub m_refcode (pre @ k @ post) = re_sub m_refcode pre @ k @ re_sub m_refcode post"
  using refcode_prefix[OF assms(1), of "k @ post"] re_sub_skip[OF bracket_refcode assms(2), of post]
  by simp

lemma refcode_lone:
  assumes "CHR ''['' \<notin> set (re_sub m_refcode pre)" "plain x"
  shows "re_sub m_refcode (pre @ ''[PCUS '' @ x @ '']'' @ post) =
     re_sub m_refcode pre @ ''[PCUS '' @ x @ '']'' @ re_sub m_refcode post"
    and "re_sub m_refcode (pre @ ''[UPCUSA '' @ x @ '']'' @ post) =
     re_sub m_refcode pre @ ''[UPCUSA '' @ x @ '']'' @ re_sub m_refcode post"
  using refcode_around[OF assms(1), of "CHR ''P''" "''CUS '' @ x @ '']''" post]
    refcode_around[OF assms(1), of "CHR ''U''" "''PCUSA '' @ x @ '']''" post] assms(2)
  by (simp_all add: plain_def is_digit_def)

lemma refcode_pair:
  assumes "CHR ''['' \<notin> set (re_sub m_refcode pre)" "plain x" "plain y"
  shows "re_sub m_refcode (pre @ ''[PCUS '' @ x @ ''] [UPCUSA '' @ y @ '']'' @ post) =
     re_sub m_refcode pre @ ''[PCUS '' @ x @ ''] [UPCUSA '' @ y @ '']'' @ re_sub m_refcode post"
    and "re_sub m_refcode (pre @ ''[UPCUSA '' @ y @ ''] [PCUS '' @ x @ '']'' @ post) =
     re_sub m_refcode pre @ ''[UPCUSA '' @ y @ ''] [PCUS '' @ x @ '']'' @ re_sub m_refcode post"
proof -
  have sp: "re_sub m_refcode '' '' = '' ''"
    by (rule re_sub_plain[OF bracket_refcode]) simp
  have "re_sub m_refcode (pre @ ''[PCUS '' @ x @ '']'' @ ('' '' @ ''[UPCUSA '' @ y @ '']'' @ post)) =
     re_sub m_refcode pre @ ''[PCUS '' @ x @ '']'' @
       re_sub m_refcode ('' '' @ ''[UPCUSA '' @ y @ '']'' @ post)"
    by (rule refcode_lone(1)[OF assms(1,2)])
  moreover have "re_sub m_refcode ('' '' @ ''[UPCUSA '' @ y @ '']'' @ post) =
      re_sub m_refcode '' '' @ ''[UPCUSA '' @ y @ '']'' @ re_sub m_refcode post"
    by (rule refcode_lone(2)[OF _ assms(3)]) (simp add: sp del: re_sub.simps)
  ultimately show "re_sub m_refcode (pre @ ''[PCUS '' @ x @ ''] [UPCUSA '' @ y @ '']'' @ post) =
     re_sub m_refcode pre @ ''[PCUS '' @ x @ ''] [UPCUSA '' @ y @ '']'' @ re_sub m_refcode post"
    by (simp add: sp del: re_sub.simps)
  have "re_sub m_refcode (pre @ ''[UPCUSA '' @ y @ '']'' @ ('' '' @ ''[PCUS '' @ x @ '']'' @ post)) =
     re_sub m_refcode pre @ ''[UPCUSA '' @ y @ '']'' @
       re_sub m_refcode ('' '' @ ''[PCUS '' @ x @ '']'' @ post)"
    by (rule refcode_lone(2)[OF assms(1,3)])
  moreover have "re_sub m_refcode ('' '' @ ''[PCUS '' @ x @ '']'' @ post) =
      re_sub m_refcode '' '' @ ''[PCUS '' @ x @ '']'' @ re_sub m_refcode post"
    by (rule refcode_lone(1)[OF _ assms(2)]) (simp add: sp del: re_sub.simps)
  ultimately show "re_sub m_refcode (pre @ ''[UPCUSA '' @ y @ ''] [PCUS '' @ x @ '']'' @ post) =
     re_sub m_refcode pre @ ''[UPCUSA '' @ y @ ''] [PCUS '' @ x @ '']'' @ re_sub m_refcode post"
    by (simp add: sp del: re_sub.simps)
qed

lemma content_kept:
  assumes "CHR ''['' \<notin> set (re_sub m_refcode pre)" "CHR ''['' \<notin> set k"
    "resolve_variants (re_sub m_refcode (join ls)) =
       re_sub m_refcode pre @ k @ resolve_variants (re_sub m_refcode post)"
  shows "clean_content ls t = clean_content [pre @ k @ post] t"
proof (rule clean_content_resolve_cong)
  have "CHR ''['' \<notin> set (re_sub m_refcode pre @ k)" using assms by simp
  from resolve_plain_prefix[OF this, of "re_sub m_refcode post"]
  show "resolve_variants (re_sub m_refcode (join ls)) =
      resolve_variants (re_sub m_refcode (join [pre @ k @ post]))"
    using assms(3) refcode_kept[OF assms(1,2), of post] by simp
qed

lemma title_kept:
  assumes "CHR ''['' \<notin> set pre" "CHR ''['' \<notin> set k"
    "resolve_variants s = pre @ k @ resolve_variants post"
  shows "clean_title s = clean_title (pre @ k @ post)"
proof -
  have "CHR ''['' \<notin> set (pre @ k)" using assms by simp
  from resolve_plain_prefix[OF this, of post] assms(3) show ?thesis
    by (simp add: clean_title_resolve)
qed

lemma clean_plain:
  assumes "CHR ''['' \<notin> set s"
  shows "clean_title s = strip s" "clean_content [s] None = strip (re_sub m_spaces s)"
  using assms by (simp_all add: clean_title_def clean_content_def subst_plain)

text \<open>
  Claim C1, as amended. Let \<open>x\<close> and \<open>y\<close> be non-empty texts without brackets. In a title
  whose text before the annotation has no opening bracket, and in content lines whose
  joined text before the annotation has no opening bracket but those of reference codes,
  whatever text follows the annotation (it may hold further annotations and codes, on the
  same line or on later lines, which are resolved in their turn): for an adjacent pair of
  the two variant codes, in either order, \<open>clean_title\<close> and \<open>clean_content\<close> keep the text
  of the code UPCUSA and discard the text of the code PCUS (the second-named text of
  \<open>[PCUS x] [UPCUSA y]\<close>, the first-named text of \<open>[UPCUSA y] [PCUS x]\<close>); a lone tag is
  unwrapped. The result is that of the text with the kept text in place of the annotation.
  A tag counts as lone, and a pair as the pair UPCUSA-PCUS, when the rule of a pair does
  not match the tag with the text behind it: for the tag PCUS the first rule (of the pair
  PCUS-UPCUSA), for the lone tag UPCUSA the second rule, which runs on the result of the
  first. A text without opening bracket is trimmed by \<open>clean_title\<close>; as content with no
  title, its whitespace is collapsed and it is trimmed.
\<close>

theorem variant_resolution:
  assumes "plain x" "plain y" "x \<noteq> []" "y \<noteq> []"
  shows
   "(CHR ''['' \<notin> set pre \<longrightarrow>
       clean_title (pre @ ''[PCUS '' @ x @ ''] [UPCUSA '' @ y @ '']'' @ post)
         = clean_title (pre @ y @ post)
     \<and> (m_pcus_upcusa (''[PCUS '' @ x @ '']'' @ post) = None \<longrightarrow>
          clean_title (pre @ ''[UPCUSA '' @ y @ ''] [PCUS '' @ x @ '']'' @ post)
            = clean_title (pre @ y @ post)
        \<and> clean_title (pre @ ''[PCUS '' @ x @ '']'' @ post) = clean_title (pre @ x @ post))
     \<and> (m_upcusa_pcus (''[UPCUSA '' @ y @ '']'' @ re_sub m_pcus_upcusa post) = None \<longrightarrow>
          clean_title (pre @ ''[UPCUSA '' @ y @ '']'' @ post) = clean_title (pre @ y @ post)))
    \<and> (CHR ''['' \<notin> set (re_sub m_refcode pre) \<longrightarrow>
       (join content_lines = pre @ ''[PCUS '' @ x @ ''] [UPCUSA '' @ y @ '']'' @ post \<longrightarrow>
          clean_content content_lines t = clean_content [pre @ y @ post] t)
     \<and> (m_pcus_upcusa (''[PCUS '' @ x @ '']'' @ re_sub m_refcode post) = None \<longrightarrow>
          (join content_lines = pre @ ''[UPCUSA '' @ y @ ''] [PCUS '' @ x @ '']'' @ post \<longrightarrow>
             clean_content content_lines t = clean_content [pre @ y @ post] t)
        \<and> (join content_lines = pre @ ''[PCUS '' @ x @ '']'' @ post \<longrightarrow>
             clean_content content_lines t = clean_content [pre @ x @ post] t))
     \<and> (m_upcusa_pcus (''[UPCUSA '' @ y @ '']'' @
            re_sub m_pcus_upcusa (re_sub m_refcode post)) = None \<longrightarrow>
          (join content_lines = pre @ ''[UPCUSA '' @ y @ '']'' @ post \<longrightarrow>
             clean_content content_lines t = clean_content [pre @ y @ post] t)))
    \<and> (\<forall>s. CHR ''['' \<notin> set s \<longrightarrow>
          clean_title s = strip s \<and> clean_content [s] None = strip (re_sub m_spaces s))"
proof -
  have b: "CHR ''['' \<notin> set x" "CHR '']'' \<notin> set x" "CHR ''['' \<notin> set y" "CHR '']'' \<notin> set y"
    using assms by (simp_all add: plain_def)
  have 1: "clean_title (pre @ ''[PCUS '' @ x @ ''] [UPCUSA '' @ y @ '']'' @ post)
         = clean_title (pre @ y @ post)" if "CHR ''['' \<notin> set pre"
    by (rule title_kept[OF that b(3) resolve_pair_PU[OF that assms(3) b(2) assms(2,4)]])
  have 2: "clean_title (pre @ ''[UPCUSA '' @ y @ ''] [PCUS '' @ x @ '']'' @ post)
            = clean_title (pre @ y @ post)"
    if "CHR ''['' \<notin> set pre" "m_pcus_upcusa (''[PCUS '' @ x @ '']'' @ post) = None"
    by (rule title_kept[OF that(1) b(3) resolve_pair_UP[OF that(1) assms(1,3,2,4) that(2)]])
  have 3: "clean_title (pre @ ''[PCUS '' @ x @ '']'' @ post) = clean_title (pre @ x @ post)"
    if "CHR ''['' \<notin> set pre" "m_pcus_upcusa (''[PCUS '' @ x @ '']'' @ post) = None"
    by (rule title_kept[OF that(1) b(1) resolve_lone_P[OF that(1) assms(1,3) that(2)]])
  have 4: "clean_title (pre @ ''[UPCUSA '' @ y @ '']'' @ post) = clean_title (pre @ y @ post)"
    if "CHR ''['' \<notin> set pre"
      "m_upcusa_pcus (''[UPCUSA '' @ y @ '']'' @ re_sub m_pcus_upcusa post) = None"
    by (rule title_kept[OF that(1) b(3) resolve_lone_U[OF that(1) assms(2,4) that(2)]])
  have 5: "clean_content content_lines t = clean_content [pre @ y @ post] t"
    if h: "CHR ''['' \<notin> set (re_sub m_refcode pre)"
      and j: "join content_lines = pre @ ''[PCUS '' @ x @ ''] [UPCUSA '' @ y @ '']'' @ post"
    by (rule content_kept[OF h b(3)])
      (simp only: j refcode_pair(1)[OF h assms(1,2)]
         resolve_pair_PU[OF h assms(3) b(2) assms(2,4)])
  have 6: "clean_content content_lines t = clean_content [pre @ y @ post] t"
    if h: "CHR ''['' \<notin> set (re_sub m_refcode pre)"
      and n: "m_pcus_upcusa (''[PCUS '' @ x @ '']'' @ re_sub m_refcode post) = None"
      and j: "join content_lines = pre @ ''[UPCUSA '' @ y @ ''] [PCUS '' @ x @ '']'' @ post"
    by (rule content_kept[OF h b(3)])
      (simp only: j refcode_pair(2)[OF h assms(1,2)]
         resolve_pair_UP[OF h assms(1,3,2,4) n])
  have 7: "clean_content content_lines t = clean_content [pre @ x @ post] t"
    if h: "CHR ''['' \<notin> set (re_sub m_refcode pre)"
      and n: "m_pcus_upcusa (''[PCUS '' @ x @ '']'' @ re_sub m_refcode post) = None"
      and j: "join content_lines = pre @ ''[PCUS '' @ x @ '']'' @ post"
    by (rule content_kept[OF h b(1)])
      (simp only: j refcode_lone(1)[OF h assms(1)] resolve_lone_P[OF h assms(1,3) n])
  have 8: "clean_content content_lines t = clean_content [pre @ y @ post] t"
    if h: "CHR ''['' \<notin> set (re_sub m_refcode pre)"
      and n: "m_upcusa_pcus (''[UPCUSA '' @ y @ '']'' @
            re_sub m_pcus_upcusa (re_sub m_refcode post)) = None"
      and j: "join content_lines = pre @ ''[UPCUSA '' @ y @ '']'' @ post"
    by (rule content_kept[OF h b(3)])
      (simp only: j refcode_lone(2)[OF h assms(2)] resolve_lone_U[OF h assms(2,4) n])
  have 9: "\<forall>s. CHR ''['' \<notin> set s \<longrightarrow>
          clean_title s = strip s \<and> clean_content [s] None = strip (re_sub m_spaces s)"
    using clean_plain by blast
  show ?thesis using 1 2 3 4 5 6 7 8 9 by blast
qed

theorem variant_resolution_witness:
  "clean_title ''Of [PCUS Civil] [UPCUSA Civil Government] and [UPCUSA the Church] [PCUS Kirk]''
      = ''Of Civil Government and the Church''
   \<and> clean_title ''Of [PCUS Civil] Matters'' = ''Of Civil Matters''
   \<and> clean_content [''[6.001] The [UPCUSA civil magistrate]'', ''shall [PCUS reign] [UPCUSA rule].''] None
      = ''The civil magistrate shall rule.''"
proof -
  have p: "plain ''Civil''" "plain ''Civil Government''" "''Civil'' \<noteq> []" "''Civil Government'' \<noteq> []"
    by (simp_all add: plain_def)
  have q: "plain ''Kirk''" "plain ''the Church''" "''Kirk'' \<noteq> []" "''the Church'' \<noteq> []"
    by (simp_all add: plain_def)
  have r: "plain ''reign''" "plain ''civil magistrate''" "''reign'' \<noteq> []" "''civil magistrate'' \<noteq> []"
    by (simp_all add: plain_def)
  have b1: "CHR ''['' \<notin> set ''Of ''" by simp
  have b2: "CHR ''['' \<notin> set ''Of Civil Government and ''" by simp
  have b3: "CHR ''['' \<notin> set ''Of Civil Government and the Church''" by simp
  have b4: "CHR ''['' \<notin> set ''Of Civil Matters''" by simp
  have n2: "m_pcus_upcusa (''[PCUS '' @ ''Kirk'' @ '']'' @ []) = None" by code_simp
  have n3: "m_pcus_upcusa (''[PCUS '' @ ''Civil'' @ '']'' @ '' Matters'') = None" by code_simp
  have s1: "strip ''Of Civil Government and the Church'' = ''Of Civil Government and the Church''"
    by code_simp
  have s2: "strip ''Of Civil Matters'' = ''Of Civil Matters''" by code_simp
  from variant_resolution[OF p, where pre = "''Of ''"
      and post = "'' and [UPCUSA the Church] [PCUS Kirk]''"] b1
  have "clean_title (''Of '' @ ''[PCUS '' @ ''Civil'' @ ''] [UPCUSA '' @ ''Civil Government'' @ '']'' @
        '' and [UPCUSA the Church] [PCUS Kirk]'')
      = clean_title (''Of '' @ ''Civil Government'' @ '' and [UPCUSA the Church] [PCUS Kirk]'')"
    by blast
  moreover from variant_resolution[OF q, where pre = "''Of Civil Government and ''" and post = "[]"]
     b2 n2
  have "clean_title (''Of Civil Government and '' @ ''[UPCUSA '' @ ''the Church'' @ ''] [PCUS '' @
        ''Kirk'' @ '']'' @ [])
      = clean_title (''Of Civil Government and '' @ ''the Church'' @ [])"
    by blast
  moreover from variant_resolution[OF p] b3
  have "clean_title ''Of Civil Government and the Church'' = strip ''Of Civil Government and the Church''"
    by blast
  ultimately have 1: "clean_title
      ''Of [PCUS Civil] [UPCUSA Civil Government] and [UPCUSA the Church] [PCUS Kirk]''
      = ''Of Civil Government and the Church''"
    using s1 by simp
  from variant_resolution[OF p, where pre = "''Of ''" and post = "'' Matters''"] b1 n3
  have "clean_title (''Of '' @ ''[PCUS '' @ ''Civil'' @ '']'' @ '' Matters'')
      = clean_title (''Of '' @ ''Civil'' @ '' Matters'')"
    by blast
  moreover from variant_resolution[OF p] b4
  have "clean_title ''Of Civil Matters'' = strip ''Of Civil Matters''"
    by blast
  ultimately have 2: "clean_title ''Of [PCUS Civil] Matters'' = ''Of Civil Matters''"
    using s2 by simp
  have j: "join [''[6.001] The [UPCUSA civil magistrate]'', ''shall [PCUS reign] [UPCUSA rule].''] =
      ''[6.001] The '' @ ''[UPCUSA '' @ ''civil magistrate'' @ '']'' @
        '' shall [PCUS reign] [UPCUSA rule].''"
    by code_simp
  have h: "CHR ''['' \<notin> set (re_sub m_refcode ''[6.001] The '')" by code_simp
  have n: "m_upcusa_pcus (''[UPCUSA '' @ ''civil magistrate'' @ '']'' @
      re_sub m_pcus_upcusa (re_sub m_refcode '' shall [PCUS reign] [UPCUSA rule].'')) = None"
    by code_simp
  from variant_resolution[OF r, where pre = "''[6.001] The ''"
      and post = "'' shall [PCUS reign] [UPCUSA rule].''"
      and content_lines = "[''[6.001] The [UPCUSA civil magistrate]'', ''shall [PCUS reign] [UPCUSA rule].'']"
      and t = None] j h n
  have "clean_content [''[6.001] The [UPCUSA civil magistrate]'', ''shall [PCUS reign] [UPCUSA rule].''] None
      = clean_content [''[6.001] The '' @ ''civil magistrate'' @ '' shall [PCUS reign] [UPCUSA rule].''] None"
    by blast
  moreover have "clean_content
      [''[6.001] The '' @ ''civil magistrate'' @ '' shall [PCUS reign] [UPCUSA rule].''] None
      = ''The civil magistrate shall rule.''"
    by code_simp
  ultimately have 3: "clean_content
      [''[6.001] The [UPCUSA civil magistrate]'', ''shall [PCUS reign] [UPCUSA rule].''] None
      = ''The civil magistrate shall rule.''"
    by simp
  show ?thesis using 1 2 3 by blast
qed

text \<open>The claim as stated fails for the pair that names UPCUSA first: the text of the
  first-named code is kept.\<close>

theorem variant_second_named_counterexample:
  "clean_title ''[UPCUSA first] [PCUS second]'' = ''first''
   \<and> clean_content [''[UPCUSA first] [PCUS second]''] None = ''first''"
  by code_simp


section \<open>The chapters of an input\<close>

lemma step_body:
  assumes "\<not> is_chapter_header (strip l)" "current_chapter st \<noteq> None"
  shows "step st l rest = st\<lparr>current_content := current_content st @
           filter (collected (current_title st)) [strip l]\<rparr>"
  using assms by (simp add: step_def Let_def collected_def)

lemma run_body:
  assumes "\<forall>l\<in>set mid. \<not> is_chapter_header (strip l)" "current_chapter st \<noteq> None"
  shows "run st (mid @ rest) = run (st\<lparr>current_content := current_content st @
           filter (collected (current_title st)) (map strip mid)\<rparr>) rest"
  using assms
proof (induction mid arbitrary: st)
  case Nil
  then show ?case by simp
next
  case (Cons l mid)
  let ?st = "st\<lparr>current_content := current_content st @
           filter (collected (current_title st)) [strip l]\<rparr>"
  have "run st ((l # mid) @ rest) = run ?st (mid @ rest)"
    using Cons.prems step_body[of l st "mid @ rest"] by simp
  also have "\<dots> = run (?st\<lparr>current_content := current_content ?st @
           filter (collected (current_title ?st)) (map strip mid)\<rparr>) rest"
    using Cons.prems by (intro Cons.IH) simp_all
  finally show ?case by simp
qed

lemma step_header:
  assumes "is_chapter_header (strip l)"
  shows "step st l rest =
     \<lparr>sections = save_chapter st, current_chapter = Some (chapter_num st + 1),
      current_title = (if title_scan [] (take 9 rest) \<noteq> []
                       then Some (join (title_scan [] (take 9 rest))) else None),
      current_content = [], chapter_num = chapter_num st + 1\<rparr>"
  using assms by (simp add: step_def Let_def)

lemma str_1: "str (Suc 0) = ''1''"
  by code_simp

text \<open>
  Claim C8, as amended. For an input with two chapter headers, in which the lookahead of
  the first header finds a title and the content lines collected for the first chapter
  normalize to a non-empty text, and the lookahead of the second header finds no title,
  the output has exactly one section, and its chapter field is \<open>1\<close>.
\<close>

theorem two_header_scenario:
  assumes "\<forall>l\<in>set pre. \<not> is_chapter_header (strip l)"
    and "is_chapter_header (strip h1)"
    and "\<forall>l\<in>set mid. \<not> is_chapter_header (strip l)"
    and "is_chapter_header (strip h2)"
    and "\<forall>l\<in>set post. \<not> is_chapter_header (strip l)"
    and "title_scan [] (take 9 (mid @ h2 # post)) \<noteq> []"
    and "t1 = join (title_scan [] (take 9 (mid @ h2 # post)))"
    and "title_scan [] (take 9 post) = []"
    and "clean_content (filter (collected (Some t1)) (map strip mid)) (Some t1) \<noteq> []"
  shows "parse_westminster (pre @ h1 # mid @ h2 # post) =
     [\<lparr>chapter_str = ''1'', title = clean_title t1,
       content = clean_content (filter (collected (Some t1)) (map strip mid)) (Some t1),
       topics = get_topics t1\<rparr>]"
proof -
  let ?body = "filter (collected (Some t1)) (map strip mid)"
  let ?sec = "\<lparr>chapter_str = ''1'', title = clean_title t1,
       content = clean_content ?body (Some t1), topics = get_topics t1\<rparr>"
  let ?st1 = "\<lparr>sections = [], current_chapter = Some 1, current_title = Some t1,
      current_content = [], chapter_num = 1\<rparr>"
  let ?st2 = "\<lparr>sections = [], current_chapter = Some 1, current_title = Some t1,
      current_content = ?body, chapter_num = 1\<rparr>"
  let ?st3 = "\<lparr>sections = [?sec], current_chapter = Some 2, current_title = None,
      current_content = [], chapter_num = 2\<rparr>"
  have t1: "t1 \<noteq> []"
    using title_scan_Of[OF assms(6)] assms(7) by (auto simp: startswith_iff)
  have "run init_state (pre @ h1 # mid @ h2 # post) = run init_state (h1 # mid @ h2 # post)"
    using run_front_matter[OF _ assms(1), of init_state] by (simp add: init_state_def)
  also have "\<dots> = run ?st1 (mid @ h2 # post)"
    using assms(6,7) by (simp add: step_header[OF assms(2)] init_state_def save_chapter_def)
  also have "\<dots> = run ?st2 (h2 # post)"
    using run_body[OF assms(3), of ?st1 "h2 # post"] by simp
  also have "\<dots> = run ?st3 post"
    using assms(8,9) t1
    by (simp add: step_header[OF assms(4)] save_chapter_def Let_def str_1 numeral_2_eq_2)
  also have "\<dots> = ?st3\<lparr>current_content := filter (collected None) (map strip post)\<rparr>"
    using run_body[OF assms(5), of ?st3 "[]"] by simp
  finally show ?thesis
    by (simp add: parse_westminster_def save_chapter_def)
qed

theorem two_header_scenario_witness:
  "parse_westminster ([] @ ''CHAPTER I (PCUS)'' # [''Of God'', '''', ''There is one God.''] @
      ''CHAPTER II (PCUS)'' # [''No title follows.'']) =
     [\<lparr>chapter_str = ''1'', title = ''Of God'', content = ''There is one God.'',
       topics = [''god'', ''trinity'', ''attributes'']\<rparr>]"
proof -
  let ?mid = "[''Of God'', '''', ''There is one God.'']"
  let ?post = "[''No title follows.'']"
  have 1: "\<forall>l\<in>set ([] :: string list). \<not> is_chapter_header (strip l)" by simp
  have 2: "is_chapter_header (strip ''CHAPTER I (PCUS)'')" by code_simp
  have "list_all (\<lambda>l. \<not> is_chapter_header (strip l)) ?mid" by code_simp
  then have 3: "\<forall>l\<in>set ?mid. \<not> is_chapter_header (strip l)" by (simp only: list_all_iff)
  have 4: "is_chapter_header (strip ''CHAPTER II (PCUS)'')" by code_simp
  have "list_all (\<lambda>l. \<not> is_chapter_header (strip l)) ?post" by code_simp
  then have 5: "\<forall>l\<in>set ?post. \<not> is_chapter_header (strip l)" by (simp only: list_all_iff)
  have 6: "title_scan [] (take 9 (?mid @ ''CHAPTER II (PCUS)'' # ?post)) \<noteq> []" by code_simp
  have 7: "''Of God'' = join (title_scan [] (take 9 (?mid @ ''CHAPTER II (PCUS)'' # ?post)))"
    by code_simp
  have 8: "title_scan [] (take 9 ?post) = []" by code_simp
  have 9: "clean_content (filter (collected (Some ''Of God'')) (map strip ?mid)) (Some ''Of God'') \<noteq> []"
    by code_simp
  have a: "clean_title ''Of God'' = ''Of God''" by code_simp
  have b: "clean_content (filter (collected (Some ''Of God'')) (map strip ?mid)) (Some ''Of God'')
      = ''There is one God.''" by code_simp
  have c: "get_topics ''Of God'' = [''god'', ''trinity'', ''attributes'']" by code_simp
  show ?thesis
    unfolding two_header_scenario[OF 1 2 3 4 5 6 7 8 9] a b c by (rule refl)
qed

text \<open>The claim as stated fails: here the first chapter has a title and one non-empty
  content line that no filter removes, a reference code, and the output is empty.\<close>

theorem two_header_scenario_counterexample:
  "ex_refcode_only = file_lines [''CHAPTER I (PCUS)'', ''Of God'', ''[1.1]'',
     ''CHAPTER II (PCUS)'', ''No title follows.'']
   \<and> title_scan [] (take 9 (drop 1 ex_refcode_only)) = [''Of God'']
   \<and> filter (collected (Some ''Of God'')) (map strip (take 2 (drop 1 ex_refcode_only))) = [''[1.1]'']
   \<and> title_scan [] (take 9 (drop 4 ex_refcode_only)) = []
   \<and> parse_westminster ex_refcode_only = []"
  by code_simp


subsection \<open>Sections and headers\<close>








section \<open>Resolving a resolved title\<close>

lemma flat_from_plain_append: "CHR ''['' \<notin> set x \<Longrightarrow> CHR '']'' \<notin> set x \<Longrightarrow> flat_from b (x @ s) = flat_from b s"
  by (induction x) auto

lemma flat_from_group:
  "flat_from True (x @ CHR '']'' # r) \<Longrightarrow> CHR '']'' \<notin> set x \<Longrightarrow> CHR ''['' \<notin> set x \<and> flat_from False r"
  by (induction x) (auto split: if_splits)

lemma flat_from_open_cases:
  "flat_from True s \<Longrightarrow> CHR ''['' \<notin> set s \<or> (\<exists>a r. s = a @ CHR '']'' # r \<and> CHR ''['' \<notin> set a \<and> CHR '']'' \<notin> set a)"
proof (induction s)
  case Nil
  then show ?case by simp
next
  case (Cons c s)
  show ?case
  proof (cases "c = CHR '']''")
    case True
    then have "c # s = [] @ CHR '']'' # s" by simp
    then show ?thesis by (metis empty_iff list.set(1))
  next
    case False
    with Cons.prems have c: "c \<noteq> CHR ''[''" and f: "flat_from True s" by (auto split: if_splits)
    from Cons.IH[OF f] show ?thesis
    proof
      assume "CHR ''['' \<notin> set s"
      with c show ?thesis by simp
    next
      assume "\<exists>a r. s = a @ CHR '']'' # r \<and> CHR ''['' \<notin> set a \<and> CHR '']'' \<notin> set a"
      then obtain a r where "s = a @ CHR '']'' # r" "CHR ''['' \<notin> set a" "CHR '']'' \<notin> set a" by blast
      then have "c # s = (c # a) @ CHR '']'' # r \<and> CHR ''['' \<notin> set (c # a) \<and> CHR '']'' \<notin> set (c # a)"
        using c False by simp
      then show ?thesis by blast
    qed
  qed
qed

lemma split_unique:
  "CHR '']'' \<notin> set a \<Longrightarrow> CHR '']'' \<notin> set a' \<Longrightarrow> a @ CHR '']'' # z = a' @ CHR '']'' # z' \<Longrightarrow> a = a' \<and> z = z'"
proof (induction a arbitrary: a')
  case Nil
  then show ?case by (cases a') auto
next
  case (Cons c a)
  then show ?case by (cases a') auto
qed

lemma nomatch_suffix: "nomatch m (a @ u) \<Longrightarrow> nomatch m u"
  by (induction a) auto

lemma nomatch_hd: "nomatch m s \<Longrightarrow> m s = None"
  by (cases s) auto

lemma re_sub_nomatch: "nomatch m s \<Longrightarrow> re_sub m s = s"
  by (induction s) auto

lemma nomatch_plain_append:
  assumes "bracket_matcher m" "CHR ''['' \<notin> set x" "nomatch m v"
  shows "nomatch m (x @ v)"
  using assms(2)
proof (induction x)
  case Nil
  then show ?case using assms(3) by simp
next
  case (Cons c x)
  then have "m (c # x @ v) = None"
    using assms(1) by (cases "m (c # x @ v)") (auto simp: bracket_matcher_def)
  with Cons show ?case by simp
qed

lemma nomatch_prefix:
  assumes "\<And>u. m u \<noteq> None \<Longrightarrow> m (u @ b) \<noteq> None" "nomatch m (w @ b)"
  shows "nomatch m w"
  using assms(2)
proof (induction w)
  case Nil
  then have "m ([] @ b) = None" using nomatch_hd[of m b] by simp
  with assms(1)[of "[]"] show ?case by (cases "m []") auto
next
  case (Cons c w)
  then have "m ((c # w) @ b) = None" by simp
  with assms(1)[of "c # w"] have "m (c # w) = None" by blast
  with Cons show ?case by simp
qed


text \<open>Substitution keeps brackets unnested.\<close>

lemma re_sub_flat:
  "group_matcher m \<Longrightarrow> flat_from b s \<Longrightarrow> flat_from b (re_sub m s)"
proof (induction m s arbitrary: b rule: re_sub.induct)
  case (1 m)
  then show ?case by simp
next
  case (2 m c cs)
  have gm: "group_matcher m" and fl: "flat_from b (c # cs)" by fact+
  show ?case
  proof (cases "m (c # cs)")
    case None
    then have r: "re_sub m (c # cs) = c # re_sub m cs" by simp
    show ?thesis
      unfolding r using fl "2.IH"(1)[OF None gm]
      by (auto split: if_splits)
  next
    case (Some p)
    obtain rep rest where p: "p = (rep, rest)" by (cases p)
    from gm Some p have c: "c = CHR ''[''" and len: "length rest \<le> length cs"
      unfolding group_matcher_def bracket_matcher_def by fastforce+
    with fl have b: "\<not> b" by simp
    then have fs: "flat_from False (c # cs)" using fl by simp
    with gm Some p have pr: "plain rep" and fr: "flat_from False rest"
      unfolding group_matcher_def by blast+
    have r: "re_sub m (c # cs) = rep @ re_sub m rest" using Some p len by simp
    have "flat_from False (re_sub m rest)"
      using "2.IH"(2)[OF Some p[symmetric] len gm fr] .
    then show ?thesis
      unfolding r using pr b by (simp add: flat_from_plain_append plain_def)
  qed
qed


text \<open>The matchers of the variant annotations are group matchers.\<close>

lemma group_tag_group:
  assumes "plain tag"
  shows "group_matcher (tag_group tag)"
  unfolding group_matcher_def
proof (intro conjI allI impI)
  show "bracket_matcher (tag_group tag)" by (rule bracket_tag_group)
next
  fix s rep rest
  assume a: "tag_group tag s = Some (rep, rest) \<and> flat_from False s"
  then have s: "s = ''['' @ tag @ '' '' @ rep @ '']'' @ rest" and r: "CHR '']'' \<notin> set rep"
    by (auto dest!: tag_group_Some)
  from a assms have "flat_from True (rep @ CHR '']'' # rest)"
    unfolding s by (simp add: flat_from_plain_append plain_def)
  from flat_from_group[OF this r] r s
  show "plain rep" and "flat_from False rest" and "\<exists>a. s = a @ rest"
    by (auto simp: plain_def)
qed

lemma plain_tags: "plain ''PCUS''" "plain ''UPCUSA''"
  by (simp_all add: plain_def)

lemma group_pcus: "group_matcher m_pcus" and group_upcusa: "group_matcher m_upcusa"
  using group_tag_group[OF plain_tags(1)] group_tag_group[OF plain_tags(2)]
  by (simp_all add: m_pcus_def[abs_def] m_upcusa_def[abs_def])

lemma group_pcus_upcusa: "group_matcher m_pcus_upcusa"
  unfolding group_matcher_def
proof (intro conjI allI impI)
  show "bracket_matcher m_pcus_upcusa" by (rule bracket_pcus_upcusa)
next
  fix s rep rest
  assume a: "m_pcus_upcusa s = Some (rep, rest) \<and> flat_from False s"
  then obtain x where s: "s = ''[PCUS '' @ x @ ''] [UPCUSA '' @ rep @ '']'' @ rest"
    and x: "CHR '']'' \<notin> set x" and r: "CHR '']'' \<notin> set rep"
    by (auto dest!: m_pcus_upcusa_Some)
  from a have "flat_from True (x @ CHR '']'' # ('' [UPCUSA '' @ rep @ '']'' @ rest))"
    unfolding s by simp
  from flat_from_group[OF this x] have "flat_from True (rep @ CHR '']'' # rest)" by simp
  from flat_from_group[OF this r] r s
  show "plain rep" and "flat_from False rest" and "\<exists>a. s = a @ rest"
    by (auto simp: plain_def)
qed

lemma group_upcusa_pcus: "group_matcher m_upcusa_pcus"
  unfolding group_matcher_def
proof (intro conjI allI impI)
  show "bracket_matcher m_upcusa_pcus" by (rule bracket_upcusa_pcus)
next
  fix s rep rest
  assume a: "m_upcusa_pcus s = Some (rep, rest) \<and> flat_from False s"
  then obtain x where s: "s = ''[UPCUSA '' @ rep @ ''] [PCUS '' @ x @ '']'' @ rest"
    and x: "CHR '']'' \<notin> set x" and r: "CHR '']'' \<notin> set rep"
    by (auto dest!: m_upcusa_pcus_Some)
  from a have 1: "flat_from True (rep @ CHR '']'' # ('' [PCUS '' @ x @ '']'' @ rest))"
    unfolding s by simp
  from flat_from_group[OF 1 r] have "flat_from True (x @ CHR '']'' # rest)" by simp
  from flat_from_group[OF this x] flat_from_group[OF 1 r] r s
  show "plain rep" and "flat_from False rest" and "\<exists>a. s = a @ rest"
    by (auto simp: plain_def)
qed

text \<open>Whether a tag matches at an opening bracket is decided up to the next closing
  bracket.\<close>

lemma tag_group_closed_imp:
  assumes "plain tag" "CHR '']'' \<notin> set a"
    "tag_group tag (CHR ''['' # a @ CHR '']'' # z) \<noteq> None"
  shows "tag_group tag (CHR ''['' # a @ CHR '']'' # z') \<noteq> None"
proof -
  from assms(3) obtain x r where t: "tag_group tag (CHR ''['' # a @ CHR '']'' # z) = Some (x, r)"
    by (cases "tag_group tag (CHR ''['' # a @ CHR '']'' # z)") auto
  from tag_group_Some[OF t] have e: "a @ CHR '']'' # z = (tag @ '' '' @ x) @ CHR '']'' # r"
    and x: "x \<noteq> []" "CHR '']'' \<notin> set x" by simp_all
  have "CHR '']'' \<notin> set (tag @ '' '' @ x)" using assms(1) x by (simp add: plain_def)
  from split_unique[OF assms(2) this e] have "a = tag @ '' '' @ x" by simp
  then have "CHR ''['' # a @ CHR '']'' # z' = ''['' @ tag @ '' '' @ x @ '']'' @ z'" by simp
  then show ?thesis using tag_group_append[OF x, of tag z'] by simp
qed

lemma tag_group_closed:
  assumes "plain tag" "CHR '']'' \<notin> set a"
  shows "(tag_group tag (CHR ''['' # a @ CHR '']'' # z) = None) =
         (tag_group tag (CHR ''['' # a @ CHR '']'' # z') = None)"
  using tag_group_closed_imp[OF assms, of z z'] tag_group_closed_imp[OF assms, of z' z] by blast

lemma tag_group_re_sub:
  assumes "plain tag" "bracket_matcher m" "flat_from True cs"
  shows "(tag_group tag (CHR ''['' # re_sub m cs) = None) = (tag_group tag (CHR ''['' # cs) = None)"
  using flat_from_open_cases[OF assms(3)]
proof
  assume "CHR ''['' \<notin> set cs"
  then show ?thesis using assms(2) by (simp add: re_sub_plain)
next
  assume "\<exists>a r. cs = a @ CHR '']'' # r \<and> CHR ''['' \<notin> set a \<and> CHR '']'' \<notin> set a"
  then obtain a r where cs: "cs = a @ CHR '']'' # r" and a: "CHR ''['' \<notin> set a" "CHR '']'' \<notin> set a"
    by blast
  have "m (CHR '']'' # r) = None"
    using assms(2) by (cases "m (CHR '']'' # r)") (auto simp: bracket_matcher_def)
  then have "re_sub m cs = a @ CHR '']'' # re_sub m r"
    unfolding cs using a assms(2) by (simp add: re_sub_skip)
  then show ?thesis
    unfolding cs using tag_group_closed[OF assms(1) a(2)] by simp
qed

lemma tag_group_not_bracket: "c \<noteq> CHR ''['' \<Longrightarrow> tag_group tag (c # r) = None"
  by (cases "tag_group tag (c # r)") (auto dest!: tag_group_Some)

lemma flat_from_tail: "flat_from b (c # cs) \<Longrightarrow> flat_from (c = CHR ''['' \<or> (c \<noteq> CHR '']'' \<and> b)) cs"
  by (auto split: if_splits)

text \<open>After its substitution a tag matches nowhere; another substitution creates no match.\<close>

lemma nomatch_kept:
  "group_matcher m \<Longrightarrow> plain tag \<Longrightarrow> flat_from b s \<Longrightarrow> nomatch (tag_group tag) s \<Longrightarrow>
     nomatch (tag_group tag) (re_sub m s)"
proof (induction m s arbitrary: b rule: re_sub.induct)
  case (1 m)
  then show ?case by simp
next
  case (2 m c cs)
  have gm: "group_matcher m" and pt: "plain tag" and fl: "flat_from b (c # cs)"
    and nm: "nomatch (tag_group tag) (c # cs)" by fact+
  have bm: "bracket_matcher m" using gm by (simp add: group_matcher_def)
  show ?case
  proof (cases "m (c # cs)")
    case None
    then have r: "re_sub m (c # cs) = c # re_sub m cs" by simp
    have 1: "nomatch (tag_group tag) (re_sub m cs)"
      using "2.IH"(1)[OF None gm pt flat_from_tail[OF fl]] nm by simp
    have 2: "tag_group tag (c # re_sub m cs) = None"
    proof (cases "c = CHR ''[''")
      case True
      with fl have "flat_from True cs" by simp
      from tag_group_re_sub[OF pt bm this] nm True show ?thesis by simp
    next
      case False
      then show ?thesis by (rule tag_group_not_bracket)
    qed
    show ?thesis unfolding r using 1 2 by simp
  next
    case (Some p)
    obtain rep rest where p: "p = (rep, rest)" by (cases p)
    from bm Some p have c: "c = CHR ''[''" and len: "length rest \<le> length cs"
      unfolding bracket_matcher_def by fastforce+
    with fl have fs: "flat_from False (c # cs)" by (auto split: if_splits)
    with gm Some p have pr: "plain rep" and fr: "flat_from False rest"
      and su: "\<exists>a. c # cs = a @ rest"
      unfolding group_matcher_def by blast+
    from su nm have nr: "nomatch (tag_group tag) rest" using nomatch_suffix by metis
    have r: "re_sub m (c # cs) = rep @ re_sub m rest" using Some p len by simp
    have "nomatch (tag_group tag) (re_sub m rest)"
      using "2.IH"(2)[OF Some p[symmetric] len gm pt fr nr] .
    then show ?thesis
      unfolding r using pr by (intro nomatch_plain_append bracket_tag_group) (simp_all add: plain_def)
  qed
qed

lemma nomatch_after:
  "m = tag_group tag \<Longrightarrow> plain tag \<Longrightarrow> flat_from b s \<Longrightarrow> nomatch m (re_sub m s)"
proof (induction m s arbitrary: b rule: re_sub.induct)
  case (1 m)
  then show ?case by (simp add: tag_group_def lit_def startswith_def)
next
  case (2 m c cs)
  have m: "m = tag_group tag" and pt: "plain tag" and fl: "flat_from b (c # cs)" by fact+
  have gm: "group_matcher m" unfolding m using pt by (rule group_tag_group)
  have bm: "bracket_matcher m" using gm by (simp add: group_matcher_def)
  show ?case
  proof (cases "m (c # cs)")
    case None
    then have r: "re_sub m (c # cs) = c # re_sub m cs" by simp
    have 1: "nomatch m (re_sub m cs)"
      using "2.IH"(1)[OF None m pt flat_from_tail[OF fl]] .
    have 2: "m (c # re_sub m cs) = None"
    proof (cases "c = CHR ''[''")
      case True
      with fl have "flat_from True cs" by simp
      from tag_group_re_sub[OF pt bm this] None True show ?thesis unfolding m by simp
    next
      case False
      then show ?thesis unfolding m by (rule tag_group_not_bracket)
    qed
    show ?thesis unfolding r using 1 2 by simp
  next
    case (Some p)
    obtain rep rest where p: "p = (rep, rest)" by (cases p)
    from bm Some p have c: "c = CHR ''[''" and len: "length rest \<le> length cs"
      unfolding bracket_matcher_def by fastforce+
    with fl have fs: "flat_from False (c # cs)" by (auto split: if_splits)
    with gm Some p have pr: "plain rep" and fr: "flat_from False rest"
      unfolding group_matcher_def by blast+
    have r: "re_sub m (c # cs) = rep @ re_sub m rest" using Some p len by simp
    have "nomatch m (re_sub m rest)"
      using "2.IH"(2)[OF Some p[symmetric] len m pt fr] .
    then show ?thesis
      unfolding r using pr bm by (intro nomatch_plain_append) (simp_all add: plain_def)
  qed
qed


text \<open>Trimming.\<close>

lemma rev_split: "v = rev (dropWhile P (rev v)) @ rev (takeWhile P (rev v))"
  by (metis rev_append rev_rev_ident takeWhile_dropWhile_id)

lemma strip_decomp: "\<exists>a b. s = a @ strip s @ b"
proof -
  let ?v = "dropWhile is_space s"
  have "s = takeWhile is_space s @ ?v" by simp
  also have "?v = strip s @ rev (takeWhile is_space (rev ?v))"
    unfolding strip_def by (rule rev_split)
  finally show ?thesis by blast
qed

lemma dropWhile_fixed: "s = [] \<or> \<not> P (hd s) \<Longrightarrow> dropWhile P s = s"
  by (cases s) auto

lemma strip_idem: "strip (strip s) = strip s"
proof -
  let ?v = "dropWhile is_space s"
  let ?r = "dropWhile is_space (rev ?v)"
  have w: "strip s = rev ?r" by (simp add: strip_def)
  have r0: "?r = [] \<or> \<not> is_space (hd ?r)" by (metis hd_dropWhile)
  have v0: "?v = [] \<or> \<not> is_space (hd ?v)" by (metis hd_dropWhile)
  have "rev ?r = [] \<or> \<not> is_space (hd (rev ?r))"
  proof (cases "?r = []")
    case True
    then show ?thesis by simp
  next
    case False
    have v: "?v = rev ?r @ rev (takeWhile is_space (rev ?v))" by (rule rev_split)
    from False have n: "rev ?r \<noteq> []" by simp
    have "hd ?v = hd (rev ?r)" by (subst v) (simp only: hd_append2[OF n])
    moreover have "?v \<noteq> []" using False by (metis dropWhile.simps(1) rev.simps(1))
    ultimately show ?thesis using v0 by metis
  qed
  then have 1: "dropWhile is_space (rev ?r) = rev ?r" by (rule dropWhile_fixed)
  have 2: "dropWhile is_space ?r = ?r" using r0 by (rule dropWhile_fixed)
  have "strip (rev ?r) = rev (dropWhile is_space (rev (rev ?r)))"
    unfolding strip_def 1 by (rule refl)
  also have "\<dots> = rev ?r" by (simp only: rev_rev_ident 2)
  finally show ?thesis unfolding w .
qed

lemma tag_group_extend:
  assumes "tag_group tag u \<noteq> None"
  shows "tag_group tag (u @ b) \<noteq> None"
proof -
  from assms obtain x r where t: "tag_group tag u = Some (x, r)"
    by (cases "tag_group tag u") auto
  from tag_group_Some[OF t] have u: "u = ''['' @ tag @ '' '' @ x @ '']'' @ r"
    and x: "x \<noteq> []" "CHR '']'' \<notin> set x" by simp_all
  have "u @ b = ''['' @ tag @ '' '' @ x @ '']'' @ (r @ b)" unfolding u by simp
  then show ?thesis using tag_group_append[OF x, of tag "r @ b"] by simp
qed

lemma nomatch_strip:
  assumes "nomatch (tag_group tag) s"
  shows "nomatch (tag_group tag) (strip s)"
proof -
  obtain a b where s: "s = a @ strip s @ b" using strip_decomp by blast
  then have "nomatch (tag_group tag) (a @ strip s @ b)" using assms by simp
  then have "nomatch (tag_group tag) (strip s @ b)" by (rule nomatch_suffix)
  then show ?thesis using tag_group_extend nomatch_prefix by blast
qed

lemma m_tag_group: "m_pcus = tag_group ''PCUS''" "m_upcusa = tag_group ''UPCUSA''"
  by (simp_all add: m_pcus_def[abs_def] m_upcusa_def[abs_def])

lemma nomatch_pairs:
  "nomatch m_pcus s \<Longrightarrow> nomatch m_pcus_upcusa s"
  "nomatch m_upcusa s \<Longrightarrow> nomatch m_upcusa_pcus s"
  by (induction s) (simp_all add: m_pcus_upcusa_def m_upcusa_pcus_def m_pcus_def m_upcusa_def)

lemma nomatch_after_tags:
  "flat_from b s \<Longrightarrow> nomatch m_pcus (re_sub m_pcus s)"
  "flat_from b s \<Longrightarrow> nomatch m_upcusa (re_sub m_upcusa s)"
  using nomatch_after[OF m_tag_group(1) plain_tags(1)] nomatch_after[OF m_tag_group(2) plain_tags(2)]
  by blast+

lemma nomatch_kept_pcus:
  "group_matcher m \<Longrightarrow> flat_from b s \<Longrightarrow> nomatch m_pcus s \<Longrightarrow> nomatch m_pcus (re_sub m s)"
  using nomatch_kept[OF _ plain_tags(1)] by (simp add: m_tag_group)

lemma nomatch_strip_tags:
  "nomatch m_pcus s \<Longrightarrow> nomatch m_pcus (strip s)"
  "nomatch m_upcusa s \<Longrightarrow> nomatch m_upcusa (strip s)"
  using nomatch_strip by (simp_all add: m_tag_group)

text \<open>
  Claim C2, as amended. \<open>clean_title\<close> is idempotent on every title whose brackets are not
  nested: a second pass returns the resolved title unchanged, and none of the four
  patterns matches anywhere in it.
\<close>

theorem clean_title_idempotent:
  assumes "flat x"
  shows "clean_title (clean_title x) = clean_title x
    \<and> nomatch m_pcus_upcusa (clean_title x) \<and> nomatch m_upcusa_pcus (clean_title x)
    \<and> nomatch m_pcus (clean_title x) \<and> nomatch m_upcusa (clean_title x)"
proof -
  let ?t1 = "re_sub m_pcus_upcusa x"
  let ?t2 = "re_sub m_upcusa_pcus ?t1"
  let ?t3 = "re_sub m_pcus ?t2"
  let ?t4 = "re_sub m_upcusa ?t3"
  have c: "clean_title x = strip ?t4" by (simp add: clean_title_def)
  have f0: "flat_from False x" using assms by (simp add: flat_def)
  have f1: "flat_from False ?t1" using group_pcus_upcusa f0 by (rule re_sub_flat)
  have f2: "flat_from False ?t2" using group_upcusa_pcus f1 by (rule re_sub_flat)
  have f3: "flat_from False ?t3" using group_pcus f2 by (rule re_sub_flat)
  have "nomatch m_pcus ?t3" using f2 by (rule nomatch_after_tags)
  then have "nomatch m_pcus ?t4" by (rule nomatch_kept_pcus[OF group_upcusa f3])
  then have p: "nomatch m_pcus (clean_title x)"
    unfolding c by (rule nomatch_strip_tags)
  have "nomatch m_upcusa ?t4" using f3 by (rule nomatch_after_tags)
  then have u: "nomatch m_upcusa (clean_title x)"
    unfolding c by (rule nomatch_strip_tags)
  have 1: "re_sub m_pcus_upcusa (clean_title x) = clean_title x"
    using p by (intro re_sub_nomatch nomatch_pairs)
  have 2: "re_sub m_upcusa_pcus (clean_title x) = clean_title x"
    using u by (intro re_sub_nomatch nomatch_pairs)
  have 3: "re_sub m_pcus (clean_title x) = clean_title x"
    using p by (rule re_sub_nomatch)
  have 4: "re_sub m_upcusa (clean_title x) = clean_title x"
    using u by (rule re_sub_nomatch)
  have "clean_title (clean_title x) = strip (clean_title x)"
    unfolding clean_title_def[of "clean_title x"] Let_def 1 2 3 4 by (rule refl)
  also have "\<dots> = clean_title x" unfolding c by (rule strip_idem)
  finally have "clean_title (clean_title x) = clean_title x" .
  then show ?thesis using p u nomatch_pairs by blast
qed

theorem clean_title_idempotent_witness:
  "flat ''Of [PCUS Civil] [UPCUSA Civil Government] Matters''
   \<and> clean_title ''Of [PCUS Civil] [UPCUSA Civil Government] Matters'' = ''Of Civil Government Matters''
   \<and> clean_title (clean_title ''Of [PCUS Civil] [UPCUSA Civil Government] Matters'') = ''Of Civil Government Matters''"
proof -
  have 1: "flat ''Of [PCUS Civil] [UPCUSA Civil Government] Matters''" by code_simp
  have 2: "clean_title ''Of [PCUS Civil] [UPCUSA Civil Government] Matters'' = ''Of Civil Government Matters''"
    by code_simp
  from clean_title_idempotent[OF 1] 2 show ?thesis using 1 by simp
qed

text \<open>The claim as stated fails for a nested annotation: one pass unwraps the outer tag
  and leaves the inner one, which a second pass unwraps.\<close>

theorem clean_title_nested_counterexample:
  "clean_title ''Of [PCUS [PCUS God]]'' = ''Of [PCUS God]''
   \<and> clean_title (clean_title ''Of [PCUS [PCUS God]]'') = ''Of God''"
  by code_simp


end
